theory Spec2Isabelle
  imports Complex_Main
begin

section \<open>CartPole: physics integrator, policy network, trainer and episode metrics\<close>

text \<open>
  A shallow embedding of \<^verbatim>\<open>src/app/page.tsx\<close>. Three readings of JavaScript numbers
  are used. Where a property is about which formula or branch the code computes, numbers
  are \<^typ>\<open>real\<close>. The trainer is written once for any number type with the arithmetic
  operations it uses, and is read at \<open>jsnum\<close>, which adds the IEEE special values
  \<open>+Infinity\<close>, \<open>-Infinity\<close> and \<open>NaN\<close> to exact finite arithmetic. Where a property is
  about a numeric outcome (probabilities, finiteness of the physics step), numbers are
  \<open>double\<close>: IEEE 754 binary64 with rounding to nearest, ties to even, and overflow.

  Names follow the source. Three names are suffixed because they clash with constants of
  HOL or would capture common variable names: the pole half-length \<^verbatim>\<open>length\<close> is
  \<open>length_pole\<close>, the state field \<^verbatim>\<open>x\<close> is \<open>xPos\<close>, and the metrics field
  \<^verbatim>\<open>last\<close> is \<open>lastEp\<close>. The loop variable \<^verbatim>\<open>o\<close> over the output units is \<open>out\<close>.
\<close>

subsection \<open>Constants (lines 20-41)\<close>

definition gravity :: real where "gravity = 9.8"
definition massCart :: real where "massCart = 1"
definition massPole :: real where "massPole = 0.1"
definition totalMass :: real where "totalMass = massCart + massPole"
definition length_pole :: real where "length_pole = 0.5"
definition poleMassLength :: real where "poleMassLength = massPole * length_pole"
definition forceMag :: real where "forceMag = 10"
definition tau :: real where "tau = 0.02"
definition trackLimit :: real where "trackLimit = 2.4"
definition angleLimit :: real where "angleLimit = (12 * pi) / 180"

definition inputSize :: nat where "inputSize = 4"
definition hiddenSize :: nat where "hiddenSize = 8"
definition outputSize :: nat where "outputSize = 2"

subsection \<open>Physics: \<^verbatim>\<open>stepCartPole\<close> (lines 237-265)\<close>

record CartPoleState =
  xPos :: real
  xDot :: real
  theta :: real
  thetaDot :: real

text \<open>The action type of the source is the two-valued literal type \<^verbatim>\<open>-1 | 1\<close>.\<close>

datatype Action = ActNeg | ActPos

fun actionValue :: "Action \<Rightarrow> real" where
  "actionValue ActNeg = - 1"
| "actionValue ActPos = 1"

text \<open>The divisor of the angular acceleration, line 250.\<close>

definition thetaAccDenom :: "real \<Rightarrow> real" where
  "thetaAccDenom th =
     length_pole * (4 / 3 - (massPole * cos th * cos th) / totalMass)"

definition stepCartPole :: "CartPoleState \<Rightarrow> Action \<Rightarrow> CartPoleState \<times> bool" where
  "stepCartPole st action =
     (let force = actionValue action * forceMag;
          cosTheta = cos (theta st);
          sinTheta = sin (theta st);
          temp = (force + poleMassLength * thetaDot st * thetaDot st * sinTheta) / totalMass;
          thetaAcc = (gravity * sinTheta - cosTheta * temp) / thetaAccDenom (theta st);
          xAcc = temp - (poleMassLength * thetaAcc * cosTheta) / totalMass;
          nextState = \<lparr> xPos = xPos st + tau * xDot st,
                        xDot = xDot st + tau * xAcc,
                        theta = theta st + tau * thetaDot st,
                        thetaDot = thetaDot st + tau * thetaAcc \<rparr>;
          done = (\<bar>xPos nextState\<bar> > trackLimit \<or> \<bar>theta nextState\<bar> > angleLimit)
      in (nextState, done))"

text \<open>
  The equations of motion as the specification words them, with its numeric constants
  (gravity 9.8, cart mass 1, pole mass 0.1, half-length 0.5, force 10, timestep 0.02)
  written out: the shared intermediate term, the two accelerations, and one explicit
  Euler step.
\<close>

definition spec_temp :: "real \<Rightarrow> real \<Rightarrow> real \<Rightarrow> real" where
  "spec_temp force th thD = (force + 0.1 * 0.5 * thD\<^sup>2 * sin th) / (1 + 0.1)"

definition spec_thetaAcc :: "real \<Rightarrow> real \<Rightarrow> real \<Rightarrow> real" where
  "spec_thetaAcc force th thD =
     (9.8 * sin th - cos th * spec_temp force th thD) /
     (0.5 * (4 / 3 - 0.1 * (cos th)\<^sup>2 / (1 + 0.1)))"

definition spec_xAcc :: "real \<Rightarrow> real \<Rightarrow> real \<Rightarrow> real" where
  "spec_xAcc force th thD =
     spec_temp force th thD - 0.1 * 0.5 * spec_thetaAcc force th thD * cos th / (1 + 0.1)"

definition spec_euler :: "CartPoleState \<Rightarrow> real \<Rightarrow> CartPoleState" where
  "spec_euler st a =
     \<lparr> xPos = xPos st + 0.02 * xDot st,
       xDot = xDot st + 0.02 * spec_xAcc (a * 10) (theta st) (thetaDot st),
       theta = theta st + 0.02 * thetaDot st,
       thetaDot = thetaDot st + 0.02 * spec_thetaAcc (a * 10) (theta st) (thetaDot st) \<rparr>"

subsection \<open>Episode metrics (lines 12-18, 500-510, 537-543, 572-578)\<close>

record EpisodeMetrics =
  steps :: nat
  totalReward :: nat
  episodes :: nat
  best :: nat
  lastEp :: nat

text \<open>The initial metrics of line 406.\<close>

definition initialMetrics :: EpisodeMetrics where
  "initialMetrics = \<lparr> steps = 0, totalReward = 0, episodes = 0, best = 0, lastEp = 0 \<rparr>"

text \<open>The updater passed to \<^verbatim>\<open>setMetrics\<close> when the step is terminal (lines 501-510).\<close>

definition metricsOnDone :: "EpisodeMetrics \<Rightarrow> EpisodeMetrics" where
  "metricsOnDone prev =
     (let finishedSteps = steps prev + 1
      in \<lparr> steps = 0, totalReward = 0, episodes = episodes prev + 1,
           best = max (best prev) finishedSteps, lastEp = finishedSteps \<rparr>)"

text \<open>The updater of the non-terminal branch (lines 537-543).\<close>

definition metricsOnStep :: "EpisodeMetrics \<Rightarrow> EpisodeMetrics" where
  "metricsOnStep prev =
     \<lparr> steps = steps prev + 1, totalReward = totalReward prev + 1,
       episodes = episodes prev, best = best prev, lastEp = lastEp prev \<rparr>"

text \<open>The updater of \<^verbatim>\<open>handleReset\<close> (lines 572-578).\<close>

definition metricsOnReset :: "EpisodeMetrics \<Rightarrow> EpisodeMetrics" where
  "metricsOnReset prev =
     \<lparr> steps = 0, totalReward = 0, episodes = episodes prev,
       best = best prev, lastEp = lastEp prev \<rparr>"

subsection \<open>Action sampling: \<^verbatim>\<open>sampleActionIndex\<close> (lines 118-128)\<close>

text \<open>
  The draw \<^verbatim>\<open>Math.random()\<close> is the parameter \<open>r\<close>. The loop carries the index and
  the running sum; the result is an integer because the fall-through value
  \<^verbatim>\<open>probabilities.length - 1\<close> is \<open>-1\<close> on the empty array.
\<close>

function sampleLoop :: "real list \<Rightarrow> real \<Rightarrow> nat \<Rightarrow> real \<Rightarrow> int" where
  "sampleLoop probabilities r i cumulative =
     (if i < length probabilities then
        (let cumulative' = cumulative + probabilities ! i
         in if r < cumulative' then int i
            else sampleLoop probabilities r (i + 1) cumulative')
      else int (length probabilities) - 1)"
  by pat_completeness auto
termination
  by (relation "measure (\<lambda>(probabilities, r, i, cumulative). length probabilities - i)") auto

declare sampleLoop.simps [simp del]

definition sampleActionIndex :: "real list \<Rightarrow> real \<Rightarrow> int" where
  "sampleActionIndex probabilities r = sampleLoop probabilities r 0 0"

text \<open>The running cumulative mass after the entries \<open>0..i\<close> have been added.\<close>

definition cumulativeMass :: "real list \<Rightarrow> nat \<Rightarrow> real" where
  "cumulativeMass probabilities i = sum_list (take (Suc i) probabilities)"

subsection \<open>Network parameters (lines 43-48)\<close>

record 'a NetworkParams =
  W1 :: "'a list"
  b1 :: "'a list"
  W2 :: "'a list"
  b2 :: "'a list"

text \<open>
  Array reads are written with \<open>!\<close>. A read beyond the end of an array yields
  \<^verbatim>\<open>undefined\<close> in JavaScript (and \<open>NaN\<close> once it enters arithmetic); the theorems that
  depend on such reads assume the fixed 4-8-2 shapes under which none is out of range.
\<close>

definition wfParams :: "'a NetworkParams \<Rightarrow> bool" where
  "wfParams params \<longleftrightarrow>
     length (W1 params) = hiddenSize * inputSize \<and> length (b1 params) = hiddenSize \<and>
     length (W2 params) = outputSize * hiddenSize \<and> length (b2 params) = outputSize"

subsection \<open>Trainer: \<^verbatim>\<open>trainOnEpisode\<close> (lines 56-62, 130-187)\<close>

record 'a PolicyStep =
  state :: "'a list"
  hidden :: "'a list"
  probs :: "'a list"
  actionIndex :: int
  reward :: 'a

definition wfStep :: "'a PolicyStep \<Rightarrow> bool" where
  "wfStep step \<longleftrightarrow>
     length (state step) = inputSize \<and> length (hidden step) = hiddenSize \<and>
     length (probs step) = outputSize"

definition learningRate :: "'a::{inverse,numeral,power}" where
  "learningRate = 0.02"

definition discountFactor :: "'a::{inverse,numeral,power}" where
  "discountFactor = 0.99"

text \<open>An array length as a number.\<close>

fun numOfNat :: "nat \<Rightarrow> 'a::{zero,one,plus}" where
  "numOfNat 0 = 0"
| "numOfNat (Suc n) = numOfNat n + 1"

text \<open>The four gradient accumulators of lines 139-142.\<close>

record 'a Gradients =
  gradW1 :: "'a list"
  gradb1 :: "'a list"
  gradW2 :: "'a list"
  gradb2 :: "'a list"

definition zeroGradients :: "'a::zero Gradients" where
  "zeroGradients =
     \<lparr> gradW1 = replicate (hiddenSize * inputSize) 0, gradb1 = replicate hiddenSize 0,
       gradW2 = replicate (outputSize * hiddenSize) 0, gradb2 = replicate outputSize 0 \<rparr>"

text \<open>The compound assignment \<^verbatim>\<open>g[i] += v\<close>.\<close>

definition addAt :: "'a::plus list \<Rightarrow> nat \<Rightarrow> 'a \<Rightarrow> 'a list" where
  "addAt g i v = g[i := g ! i + v]"

text \<open>
  The backward loop of lines 145-149. The first numeric argument is \<open>t + 1\<close> for the
  loop variable \<open>t\<close>, so that \<open>0\<close> is the exit \<open>t < 0\<close>.
\<close>

fun returnsLoop ::
  "'a::{inverse,numeral,power,times} PolicyStep list \<Rightarrow> nat \<Rightarrow> 'a \<Rightarrow> 'a list \<Rightarrow> 'a list" where
  "returnsLoop trajectory 0 discounted returns = returns"
| "returnsLoop trajectory (Suc t) discounted returns =
     (let discounted' = reward (trajectory ! t) + discountFactor * discounted
      in returnsLoop trajectory t discounted' (returns[t := discounted']))"

definition computeReturns ::
  "'a::{zero,inverse,numeral,power,times} PolicyStep list \<Rightarrow> 'a list" where
  "computeReturns trajectory =
     returnsLoop trajectory (length trajectory) 0 (replicate (length trajectory) 0)"

text \<open>
  The output-layer loop of lines 155-163 for one step: the error signal \<open>delta2\<close> and
  the accumulation into \<open>gradb2\<close> and \<open>gradW2\<close>. The array \<open>delta2\<close> is created without
  initial values and every entry is written before it is read; the model starts it at
  zeros.
\<close>

definition accumulateOutput ::
  "'a::{zero,one,plus,minus,times} PolicyStep \<Rightarrow> 'a \<Rightarrow> 'a Gradients \<Rightarrow> 'a Gradients \<times> 'a list" where
  "accumulateOutput step advantage g0 =
     fold (\<lambda>out (g, delta2).
            let indicator = (if actionIndex step = int out then 1 else 0);
                d = (indicator - probs step ! out) * advantage;
                g1 = g\<lparr>gradb2 := addAt (gradb2 g) out d\<rparr>;
                g2 = fold (\<lambda>h g'. g'\<lparr>gradW2 :=
                             addAt (gradW2 g') (out * hiddenSize + h) (d * hidden step ! h)\<rparr>)
                          [0..<hiddenSize] g1
            in (g2, delta2[out := d]))
          [0..<outputSize] (g0, replicate outputSize 0)"

text \<open>
  The hidden-layer loop of lines 165-176 for one step: the error signal is taken back
  through the output weights, multiplied by the derivative of \<open>tanh\<close>, and accumulated
  into \<open>gradb1\<close> and \<open>gradW1\<close>. The entry \<open>delta1[h]\<close> is only read in the iteration that
  writes it, so it is the local value \<open>d1\<close>.
\<close>

definition accumulateHidden ::
  "'a::{zero,one,plus,minus,times} NetworkParams \<Rightarrow> 'a PolicyStep \<Rightarrow> 'a list \<Rightarrow>
     'a Gradients \<Rightarrow> 'a Gradients" where
  "accumulateHidden params step delta2 g0 =
     fold (\<lambda>h g.
            let sum = fold (\<lambda>out s. s + W2 params ! (out * hiddenSize + h) * delta2 ! out)
                           [0..<outputSize] 0;
                d1 = (1 - hidden step ! h * hidden step ! h) * sum;
                g1 = g\<lparr>gradb1 := addAt (gradb1 g) h d1\<rparr>
            in fold (\<lambda>i g'. g'\<lparr>gradW1 :=
                       addAt (gradW1 g') (h * inputSize + i) (d1 * state step ! i)\<rparr>)
                    [0..<inputSize] g1)
          [0..<hiddenSize] g0"

definition accumulateStep ::
  "'a::{zero,one,plus,minus,times} NetworkParams \<Rightarrow> 'a PolicyStep \<Rightarrow> 'a \<Rightarrow>
     'a Gradients \<Rightarrow> 'a Gradients" where
  "accumulateStep params step advantage g =
     (let (g', delta2) = accumulateOutput step advantage g
      in accumulateHidden params step delta2 g')"

text \<open>
  The two error signals in closed form: \<open>delta2[out]\<close> of line 158 and \<open>delta1[h]\<close> of
  lines 167-171.
\<close>

definition outputError :: "'a::{zero,one,minus,times} PolicyStep \<Rightarrow> 'a \<Rightarrow> nat \<Rightarrow> 'a" where
  "outputError step advantage out =
     ((if actionIndex step = int out then 1 else 0) - probs step ! out) * advantage"

definition hiddenError ::
  "'a::{zero,one,plus,minus,times} NetworkParams \<Rightarrow> 'a PolicyStep \<Rightarrow> 'a list \<Rightarrow> nat \<Rightarrow> 'a" where
  "hiddenError params step delta2 h =
     (1 - hidden step ! h * hidden step ! h) *
     fold (\<lambda>out s. s + W2 params ! (out * hiddenSize + h) * delta2 ! out) [0..<outputSize] 0"

text \<open>The loop over the trajectory, lines 151-177.\<close>

definition accumulateGradients ::
  "'a::{zero,one,plus,minus,times} NetworkParams \<Rightarrow> 'a PolicyStep list \<Rightarrow> 'a list \<Rightarrow>
     'a Gradients" where
  "accumulateGradients params trajectory returns =
     fold (\<lambda>t g. accumulateStep params (trajectory ! t) (returns ! t) g)
          [0..<length trajectory] zeroGradients"

text \<open>\<^verbatim>\<open>xs.map((value, index) => f(value, index))\<close>.\<close>

definition mapIndexed :: "('a \<Rightarrow> nat \<Rightarrow> 'b) \<Rightarrow> 'a list \<Rightarrow> 'b list" where
  "mapIndexed f xs = map (\<lambda>(v, index). f v index) (zip xs [0..<length xs])"

definition updateScale :: "nat \<Rightarrow> 'a::{zero,inverse,numeral,power}" where
  "updateScale n = learningRate / numOfNat (max 1 n)"

text \<open>The accumulated gradients of an episode, as \<^verbatim>\<open>trainOnEpisode\<close> holds them at line 179.\<close>

definition episodeGradients ::
  "'a::{zero,minus,times,inverse,numeral,power} NetworkParams \<Rightarrow> 'a PolicyStep list \<Rightarrow>
     'a Gradients" where
  "episodeGradients params trajectory =
     accumulateGradients params trajectory (computeReturns trajectory)"

definition trainOnEpisode ::
  "'a::{zero,minus,times,inverse,numeral,power} NetworkParams \<Rightarrow> 'a PolicyStep list \<Rightarrow>
     'a NetworkParams" where
  "trainOnEpisode params trajectory =
     (if length trajectory = 0 then params
      else
        (let g = episodeGradients params trajectory;
             scale = updateScale (length trajectory)
         in \<lparr> W1 = mapIndexed (\<lambda>weight index. weight + scale * gradW1 g ! index) (W1 params),
              b1 = mapIndexed (\<lambda>bias index. bias + scale * gradb1 g ! index) (b1 params),
              W2 = mapIndexed (\<lambda>weight index. weight + scale * gradW2 g ! index) (W2 params),
              b2 = mapIndexed (\<lambda>bias index. bias + scale * gradb2 g ! index) (b2 params) \<rparr>))"

subsection \<open>JavaScript numbers with the IEEE special values\<close>

text \<open>
  A number is a finite value, one of the two infinities, or \<open>NaN\<close>. Arithmetic follows
  IEEE 754 on the special values; on finite values it is exact. Signed zeros are not
  distinguished: a nonzero finite value divided by zero takes the sign of the dividend.
\<close>

datatype jsnum = Fin real | PosInf | NegInf | NaN

fun isFinite :: "jsnum \<Rightarrow> bool" where
  "isFinite (Fin a) = True"
| "isFinite PosInf = False"
| "isFinite NegInf = False"
| "isFinite NaN = False"

fun infOfSign :: "bool \<Rightarrow> jsnum" where
  "infOfSign True = PosInf"
| "infOfSign False = NegInf"

instantiation jsnum :: "{zero,one,plus,uminus,minus,times,inverse}"
begin

definition zero_jsnum :: jsnum where "zero_jsnum = Fin 0"

definition one_jsnum :: jsnum where "one_jsnum = Fin 1"

fun plus_jsnum :: "jsnum \<Rightarrow> jsnum \<Rightarrow> jsnum" where
  "plus_jsnum NaN y = NaN"
| "plus_jsnum x NaN = NaN"
| "plus_jsnum (Fin a) (Fin b) = Fin (a + b)"
| "plus_jsnum PosInf NegInf = NaN"
| "plus_jsnum NegInf PosInf = NaN"
| "plus_jsnum PosInf y = PosInf"
| "plus_jsnum NegInf y = NegInf"
| "plus_jsnum (Fin a) y = y"

fun uminus_jsnum :: "jsnum \<Rightarrow> jsnum" where
  "uminus_jsnum (Fin a) = Fin (- a)"
| "uminus_jsnum PosInf = NegInf"
| "uminus_jsnum NegInf = PosInf"
| "uminus_jsnum NaN = NaN"

definition minus_jsnum :: "jsnum \<Rightarrow> jsnum \<Rightarrow> jsnum" where
  "minus_jsnum x y = x + (- y)"

fun times_jsnum :: "jsnum \<Rightarrow> jsnum \<Rightarrow> jsnum" where
  "times_jsnum NaN y = NaN"
| "times_jsnum x NaN = NaN"
| "times_jsnum (Fin a) (Fin b) = Fin (a * b)"
| "times_jsnum (Fin a) PosInf = (if a = 0 then NaN else infOfSign (0 < a))"
| "times_jsnum (Fin a) NegInf = (if a = 0 then NaN else infOfSign (a < 0))"
| "times_jsnum PosInf (Fin b) = (if b = 0 then NaN else infOfSign (0 < b))"
| "times_jsnum NegInf (Fin b) = (if b = 0 then NaN else infOfSign (b < 0))"
| "times_jsnum PosInf PosInf = PosInf"
| "times_jsnum PosInf NegInf = NegInf"
| "times_jsnum NegInf PosInf = NegInf"
| "times_jsnum NegInf NegInf = PosInf"

fun divide_jsnum :: "jsnum \<Rightarrow> jsnum \<Rightarrow> jsnum" where
  "divide_jsnum NaN y = NaN"
| "divide_jsnum x NaN = NaN"
| "divide_jsnum (Fin a) (Fin b) =
     (if b = 0 then (if a = 0 then NaN else infOfSign (0 < a)) else Fin (a / b))"
| "divide_jsnum (Fin a) y = Fin 0"
| "divide_jsnum PosInf (Fin b) = infOfSign (0 \<le> b)"
| "divide_jsnum NegInf (Fin b) = infOfSign (b < 0)"
| "divide_jsnum x y = NaN"

definition inverse_jsnum :: "jsnum \<Rightarrow> jsnum" where
  "inverse_jsnum x = 1 div x"

instance ..

end

instance jsnum :: semigroup_add
proof
  fix a b c :: jsnum
  show "a + b + c = a + (b + c)"
    by (cases a; cases b; cases c) simp_all
qed

instance jsnum :: numeral ..

instance jsnum :: power ..

text \<open>
  A parameter set of zeros and a recorded step whose observation holds \<open>+Infinity\<close>: with
  zero weights the forward pass of the source computes \<open>0 * Infinity = NaN\<close> for every
  hidden activation and probability.
\<close>

definition zeroParams :: "jsnum NetworkParams" where
  "zeroParams =
     \<lparr> W1 = replicate 32 0, b1 = replicate 8 0, W2 = replicate 16 0, b2 = replicate 2 0 \<rparr>"

definition nanStep :: "jsnum PolicyStep" where
  "nanStep =
     \<lparr> state = [PosInf, 0, 0, 0], hidden = replicate 8 NaN, probs = [NaN, NaN],
       actionIndex = 0, reward = 1 \<rparr>"

text \<open>
  What \<^verbatim>\<open>trainOnEpisode\<close> does to one parameter array: every entry is the old entry
  plus the scaled gradient entry, and a non-finite gradient or old entry gives a
  non-finite new entry.
\<close>

definition propagates :: "jsnum \<Rightarrow> jsnum list \<Rightarrow> jsnum list \<Rightarrow> jsnum list \<Rightarrow> bool" where
  "propagates scale old grad new \<longleftrightarrow>
     length new = length old \<and> length grad = length old \<and>
     (\<forall>k<length old.
        new ! k = old ! k + scale * grad ! k \<and>
        (\<not> isFinite (grad ! k) \<or> \<not> isFinite (old ! k) \<longrightarrow> \<not> isFinite (new ! k)))"

subsection \<open>Rounding to IEEE 754 binary64\<close>

text \<open>
  The exact result of an operation is rounded to the nearest number of the binary64
  format, ties going to the even significand. \<open>expoD x\<close> is the binade of \<open>x\<close>, not below
  the least normal exponent \<open>-1022\<close>, so that subnormal numbers share the spacing
  \<open>2^-1074\<close>; \<open>ulpD x\<close> is the spacing of the format in that binade; \<open>rne\<close> rounds a real
  to the nearest integer, ties to even; \<open>roundR\<close> rounds with an unbounded exponent range;
  \<open>maxDouble\<close> is \<^verbatim>\<open>Number.MAX_VALUE\<close>; \<open>roundD\<close> is the rounding of the format: a value
  whose rounding exceeds \<open>maxDouble\<close> in magnitude overflows to the infinity of its sign.
\<close>

definition expoD :: "real \<Rightarrow> int" where
  "expoD x = max \<lfloor>log 2 \<bar>x\<bar>\<rfloor> (- 1022)"

definition ulpD :: "real \<Rightarrow> real" where
  "ulpD x = 2 powr (of_int (expoD x) - 52)"

definition rne :: "real \<Rightarrow> int" where
  "rne y =
     (let f = \<lfloor>y\<rfloor>; d = y - of_int f
      in if d < 1 / 2 then f else if 1 / 2 < d then f + 1 else if even f then f else f + 1)"

definition roundR :: "real \<Rightarrow> real" where
  "roundR x = ulpD x * of_int (rne (x / ulpD x))"

definition maxDouble :: real where
  "maxDouble = 2 ^ 1024 - 2 ^ 971"

definition roundD :: "real \<Rightarrow> jsnum" where
  "roundD x = (if maxDouble < \<bar>roundR x\<bar> then infOfSign (0 < x) else Fin (roundR x))"

fun fl :: "jsnum \<Rightarrow> jsnum" where
  "fl (Fin x) = roundD x"
| "fl PosInf = PosInf"
| "fl NegInf = NegInf"
| "fl NaN = NaN"

subsection \<open>JavaScript numbers as doubles\<close>

text \<open>
  A \<open>double\<close> carries a \<open>jsnum\<close>; every arithmetic operation computes the exact result
  on \<open>jsnum\<close> and rounds it. Addition on doubles is not associative, so the type has no
  numerals: a decimal literal of the source is \<open>lit\<close> of its real value, the double
  nearest to it. The comparison \<^verbatim>\<open><\<close> is \<open>dless\<close> (false when an operand is \<open>NaN\<close>),
  \<^verbatim>\<open>Math.abs\<close> is \<open>dabs\<close>, and \<^verbatim>\<open>Math.max(...xs)\<close> is \<open>maxD\<close>: \<open>-Infinity\<close> for no
  argument and \<open>NaN\<close> as soon as one argument is \<open>NaN\<close>. Reading an array beyond its
  end gives \<^verbatim>\<open>undefined\<close>, which arithmetic converts to \<open>NaN\<close>: \<open>nthD\<close>.
\<close>

datatype double = Double (val: jsnum)

instantiation double :: "{zero,one,plus,uminus,minus,times,inverse}"
begin

definition zero_double :: double where "zero_double = Double (Fin 0)"

definition one_double :: double where "one_double = Double (Fin 1)"

definition plus_double :: "double \<Rightarrow> double \<Rightarrow> double" where
  "plus_double a b = Double (fl (val a + val b))"

definition uminus_double :: "double \<Rightarrow> double" where
  "uminus_double a = Double (- val a)"

definition minus_double :: "double \<Rightarrow> double \<Rightarrow> double" where
  "minus_double a b = Double (fl (val a - val b))"

definition times_double :: "double \<Rightarrow> double \<Rightarrow> double" where
  "times_double a b = Double (fl (val a * val b))"

definition divide_double :: "double \<Rightarrow> double \<Rightarrow> double" where
  "divide_double a b = Double (fl (val a / val b))"

definition inverse_double :: "double \<Rightarrow> double" where
  "inverse_double a = 1 div a"

instance ..

end

definition lit :: "real \<Rightarrow> double" where
  "lit x = Double (roundD x)"

definition isFiniteD :: "double \<Rightarrow> bool" where
  "isFiniteD d = isFinite (val d)"

fun jless :: "jsnum \<Rightarrow> jsnum \<Rightarrow> bool" where
  "jless NaN y = False"
| "jless x NaN = False"
| "jless (Fin a) (Fin b) = (a < b)"
| "jless (Fin a) PosInf = True"
| "jless (Fin a) NegInf = False"
| "jless PosInf y = False"
| "jless NegInf NegInf = False"
| "jless NegInf y = True"

definition dless :: "double \<Rightarrow> double \<Rightarrow> bool" where
  "dless a b = jless (val a) (val b)"

fun jabs :: "jsnum \<Rightarrow> jsnum" where
  "jabs (Fin a) = Fin \<bar>a\<bar>"
| "jabs PosInf = PosInf"
| "jabs NegInf = PosInf"
| "jabs NaN = NaN"

definition dabs :: "double \<Rightarrow> double" where
  "dabs a = Double (jabs (val a))"

definition dmax :: "double \<Rightarrow> double \<Rightarrow> double" where
  "dmax a b =
     (if val a = NaN \<or> val b = NaN then Double NaN else if dless a b then b else a)"

definition maxD :: "double list \<Rightarrow> double" where
  "maxD xs = fold (\<lambda>x m. dmax m x) xs (Double NegInf)"

definition nthD :: "double list \<Rightarrow> nat \<Rightarrow> double" where
  "nthD xs i = (if i < length xs then xs ! i else Double NaN)"

subsection \<open>The functions of \<^verbatim>\<open>Math\<close>\<close>

text \<open>
  The language standard leaves the accuracy of \<^verbatim>\<open>Math.exp\<close>, \<^verbatim>\<open>Math.tanh\<close>,
  \<^verbatim>\<open>Math.sin\<close> and \<^verbatim>\<open>Math.cos\<close> to the implementation, so the code that calls them takes
  them as a parameter \<open>mathlib\<close>. \<open>correctlyRounded\<close> is the library that returns the
  double nearest to the exact value, with the values at the infinities and at \<open>NaN\<close> that
  the standard fixes. General results assume of the library only what every implementation
  provides: \<open>expInUnit\<close> says that \<^verbatim>\<open>Math.exp\<close> is exactly 1 at 0, is 0 at \<open>-Infinity\<close>, and
  lies between 0 and 1 at negative arguments; \<open>inUnit\<close>, used of \<^verbatim>\<open>Math.cos\<close>, \<^verbatim>\<open>Math.sin\<close>
  and \<^verbatim>\<open>Math.tanh\<close>, says that the value at a finite number is a finite number of
  magnitude at most 1.
\<close>

record mathlib =
  mexp :: "double \<Rightarrow> double"
  mtanh :: "double \<Rightarrow> double"
  msin :: "double \<Rightarrow> double"
  mcos :: "double \<Rightarrow> double"

definition roundedFn :: "(real \<Rightarrow> real) \<Rightarrow> jsnum \<Rightarrow> jsnum \<Rightarrow> double \<Rightarrow> double" where
  "roundedFn f atPosInf atNegInf d =
     (case val d of
        Fin x \<Rightarrow> Double (roundD (f x))
      | PosInf \<Rightarrow> Double atPosInf
      | NegInf \<Rightarrow> Double atNegInf
      | NaN \<Rightarrow> Double NaN)"

definition correctlyRounded :: mathlib where
  "correctlyRounded =
     \<lparr> mexp = roundedFn exp PosInf (Fin 0), mtanh = roundedFn tanh (Fin 1) (Fin (- 1)),
       msin = roundedFn sin NaN NaN, mcos = roundedFn cos NaN NaN \<rparr>"

definition expInUnit :: "(double \<Rightarrow> double) \<Rightarrow> bool" where
  "expInUnit f \<longleftrightarrow>
     f (Double (Fin 0)) = Double (Fin 1) \<and> f (Double NegInf) = Double (Fin 0) \<and>
     (\<forall>x<0. \<exists>e. f (Double (Fin x)) = Double (Fin e) \<and> 0 \<le> e \<and> e \<le> 1)"

definition inUnit :: "(double \<Rightarrow> double) \<Rightarrow> bool" where
  "inUnit f \<longleftrightarrow> (\<forall>x. \<exists>c. f (Double (Fin x)) = Double (Fin c) \<and> \<bar>c\<bar> \<le> 1)"

subsection \<open>Bounded inputs\<close>

text \<open>
  \<open>magBelow k d\<close>: the double \<open>d\<close> is finite, of magnitude at most \<open>2^k\<close>; \<open>magList\<close> says
  so of every entry of an array. \<open>boundedInputs\<close> describes parameters of the fixed
  4-8-2 shapes and an observation of four entries, all of magnitude at most \<open>2^500\<close>.
\<close>

definition magBelow :: "nat \<Rightarrow> double \<Rightarrow> bool" where
  "magBelow k d \<longleftrightarrow> (\<exists>r. d = Double (Fin r) \<and> \<bar>r\<bar> \<le> 2 ^ k)"

definition magList :: "nat \<Rightarrow> double list \<Rightarrow> bool" where
  "magList k xs \<longleftrightarrow> (\<forall>d \<in> set xs. magBelow k d)"

subsection \<open>Policy network: \<^verbatim>\<open>forwardNetwork\<close> (lines 81-116)\<close>

text \<open>
  The forward pass on doubles, in the order of the source: each hidden unit starts from
  its bias and adds the products one by one (lines 88-94); each logit likewise (lines
  96-103); the largest logit is subtracted before \<^verbatim>\<open>Math.exp\<close> (lines 105-108); the
  divisor \<open>denom\<close> starts at 0 and adds the exponentials in index order (line 109); each
  probability is an exponential divided by \<open>denom\<close> (line 113). The local array
  \<^verbatim>\<open>hidden\<close> is \<open>hid\<close>, the name \<open>hidden\<close> being the field of a recorded step.
\<close>

definition hiddenLayer :: "mathlib \<Rightarrow> double NetworkParams \<Rightarrow> double list \<Rightarrow> double list" where
  "hiddenLayer m params inputVector =
     map (\<lambda>i. mtanh m
                (fold (\<lambda>j sum. sum + nthD (W1 params) (i * inputSize + j) * nthD inputVector j)
                      [0..<inputSize] (nthD (b1 params) i)))
         [0..<hiddenSize]"

definition logitLayer :: "double NetworkParams \<Rightarrow> double list \<Rightarrow> double list" where
  "logitLayer params hid =
     map (\<lambda>out. fold (\<lambda>h sum. sum + nthD (W2 params) (out * hiddenSize + h) * nthD hid h)
                  [0..<hiddenSize] (nthD (b2 params) out))
         [0..<outputSize]"

definition softmax :: "mathlib \<Rightarrow> double list \<Rightarrow> double list" where
  "softmax m logits =
     (let maxLogit = maxD logits;
          exps = map (\<lambda>logit. mexp m (logit - maxLogit)) logits;
          denom = fold (\<lambda>value d. d + value) exps 0
      in map (\<lambda>value. value / denom) exps)"

definition forwardNetwork ::
  "mathlib \<Rightarrow> double NetworkParams \<Rightarrow> double list \<Rightarrow> double list \<times> double list" where
  "forwardNetwork m params inputVector =
     (let hid = hiddenLayer m params inputVector;
          logits = logitLayer params hid;
          pr = softmax m logits
      in (hid, pr))"

definition boundedInputs :: "double NetworkParams \<Rightarrow> double list \<Rightarrow> bool" where
  "boundedInputs params inputVector \<longleftrightarrow>
     wfParams params \<and> length inputVector = inputSize \<and>
     magList 500 (W1 params) \<and> magList 500 (b1 params) \<and>
     magList 500 (W2 params) \<and> magList 500 (b2 params) \<and> magList 500 inputVector"

text \<open>The step the loop pushes onto the trajectory in neural mode (lines 469-482).\<close>

definition recordStep ::
  "mathlib \<Rightarrow> double NetworkParams \<Rightarrow> double list \<Rightarrow> int \<Rightarrow> double PolicyStep" where
  "recordStep m params stateVector a =
     (let (hid, pr) = forwardNetwork m params stateVector
      in \<lparr> state = stateVector, hidden = hid, probs = pr, actionIndex = a, reward = 1 \<rparr>)"

subsection \<open>The trainer on doubles\<close>

text \<open>
  \<^verbatim>\<open>trainOnEpisode\<close> at the type of doubles. The loops over the trajectory
  (\<open>accumulateGradients\<close> and the functions it calls) are the ones defined above, read at
  \<open>double\<close>. The three places where the source writes a decimal literal or converts the
  trajectory length to a number are written again, with \<open>lit\<close>: the discount factor in the
  backward loop, the learning rate, and \<^verbatim>\<open>Math.max(1, trajectory.length)\<close>. The suffix \<open>D\<close>
  marks a definition of the source read at doubles where the same definition is also read
  at another number type.
\<close>

definition learningRateD :: double where
  "learningRateD = lit 0.02"

definition discountFactorD :: double where
  "discountFactorD = lit 0.99"

fun returnsLoopD :: "double PolicyStep list \<Rightarrow> nat \<Rightarrow> double \<Rightarrow> double list \<Rightarrow> double list" where
  "returnsLoopD trajectory 0 discounted returns = returns"
| "returnsLoopD trajectory (Suc t) discounted returns =
     (let discounted' = reward (trajectory ! t) + discountFactorD * discounted
      in returnsLoopD trajectory t discounted' (returns[t := discounted']))"

definition computeReturnsD :: "double PolicyStep list \<Rightarrow> double list" where
  "computeReturnsD trajectory =
     returnsLoopD trajectory (length trajectory) 0 (replicate (length trajectory) 0)"

definition updateScaleD :: "nat \<Rightarrow> double" where
  "updateScaleD n = learningRateD / lit (real (max 1 n))"

definition episodeGradientsD :: "double NetworkParams \<Rightarrow> double PolicyStep list \<Rightarrow> double Gradients" where
  "episodeGradientsD params trajectory =
     accumulateGradients params trajectory (computeReturnsD trajectory)"

definition trainOnEpisodeD ::
  "double NetworkParams \<Rightarrow> double PolicyStep list \<Rightarrow> double NetworkParams" where
  "trainOnEpisodeD params trajectory =
     (if length trajectory = 0 then params
      else
        (let g = episodeGradientsD params trajectory;
             scale = updateScaleD (length trajectory)
         in \<lparr> W1 = mapIndexed (\<lambda>weight index. weight + scale * gradW1 g ! index) (W1 params),
              b1 = mapIndexed (\<lambda>bias index. bias + scale * gradb1 g ! index) (b1 params),
              W2 = mapIndexed (\<lambda>weight index. weight + scale * gradW2 g ! index) (W2 params),
              b2 = mapIndexed (\<lambda>bias index. bias + scale * gradb2 g ! index) (b2 params) \<rparr>))"

subsection \<open>The physics step on doubles\<close>

text \<open>
  \<^verbatim>\<open>stepCartPole\<close> (lines 237-265) and the constants it uses (lines 20-29) at the type of
  doubles, each expression in the source's order of evaluation. \<^verbatim>\<open>Math.PI\<close> is the double
  nearest to \<open>pi\<close>.
\<close>

record CartPoleStateD =
  xPosD :: double
  xDotD :: double
  thetaD :: double
  thetaDotD :: double

definition gravityD :: double where "gravityD = lit 9.8"
definition massCartD :: double where "massCartD = lit 1"
definition massPoleD :: double where "massPoleD = lit 0.1"
definition totalMassD :: double where "totalMassD = massCartD + massPoleD"
definition lengthD :: double where "lengthD = lit 0.5"
definition poleMassLengthD :: double where "poleMassLengthD = massPoleD * lengthD"
definition forceMagD :: double where "forceMagD = lit 10"
definition tauD :: double where "tauD = lit 0.02"
definition trackLimitD :: double where "trackLimitD = lit 2.4"
definition angleLimitD :: double where "angleLimitD = (lit 12 * lit pi) / lit 180"

definition thetaAccDenomD :: "double \<Rightarrow> double" where
  "thetaAccDenomD cosTheta =
     lengthD * (lit 4 / lit 3 - (massPoleD * cosTheta * cosTheta) / totalMassD)"

definition stepCartPoleD :: "mathlib \<Rightarrow> CartPoleStateD \<Rightarrow> Action \<Rightarrow> CartPoleStateD \<times> bool" where
  "stepCartPoleD m st action =
     (let force = lit (actionValue action) * forceMagD;
          cosTheta = mcos m (thetaD st);
          sinTheta = msin m (thetaD st);
          temp = (force + poleMassLengthD * thetaDotD st * thetaDotD st * sinTheta) / totalMassD;
          thetaAcc = (gravityD * sinTheta - cosTheta * temp) / thetaAccDenomD cosTheta;
          xAcc = temp - (poleMassLengthD * thetaAcc * cosTheta) / totalMassD;
          nextState = \<lparr> xPosD = xPosD st + tauD * xDotD st,
                        xDotD = xDotD st + tauD * xAcc,
                        thetaD = thetaD st + tauD * thetaDotD st,
                        thetaDotD = thetaDotD st + tauD * thetaAcc \<rparr>;
          done = (dless trackLimitD (dabs (xPosD nextState)) \<or>
                  dless angleLimitD (dabs (thetaD nextState)))
      in (nextState, done))"

subsection \<open>Inputs used in the examples\<close>

text \<open>
  The upright state tilted by 0.05 radians, and a state at rest on the origin whose
  angular velocity is the finite double \<open>2^600\<close>.
\<close>

definition tiltedState :: CartPoleStateD where
  "tiltedState = \<lparr> xPosD = lit 0, xDotD = lit 0, thetaD = lit 0.05, thetaDotD = lit 0 \<rparr>"

definition overflowState :: CartPoleStateD where
  "overflowState =
     \<lparr> xPosD = Double (Fin 0), xDotD = Double (Fin 0), thetaD = Double (Fin 0),
       thetaDotD = Double (Fin (2 ^ 600)) \<rparr>"

text \<open>
  Parameters whose weights are all zero, with the two output biases given; the
  parameters of zeros; and the parameters whose output biases are 128 and 0.
\<close>

definition biasParams :: "double \<Rightarrow> double \<Rightarrow> double NetworkParams" where
  "biasParams c0 c1 =
     \<lparr> W1 = replicate 32 0, b1 = replicate 8 0, W2 = replicate 16 0, b2 = [c0, c1] \<rparr>"

definition zeroParamsD :: "double NetworkParams" where
  "zeroParamsD = biasParams 0 0"

definition saturatedParams :: "double NetworkParams" where
  "saturatedParams = biasParams (Double (Fin 128)) (Double (Fin 0))"

text \<open>
  Parameters of zeros except for the first two input weights of the first hidden unit,
  which are the finite doubles \<open>2^1023\<close> and \<open>-2^1023\<close>; the observation with cart
  position 2 and cart velocity 2; and the observation of the state at rest.
\<close>

definition overflowParams :: "double NetworkParams" where
  "overflowParams =
     \<lparr> W1 = (replicate 32 0)[0 := Double (Fin (2 ^ 1023)), 1 := Double (Fin (- (2 ^ 1023)))],
       b1 = replicate 8 0, W2 = replicate 16 0, b2 = replicate 2 0 \<rparr>"

definition overflowObs :: "double list" where
  "overflowObs = [Double (Fin 2), Double (Fin 2), Double (Fin 0), Double (Fin 0)]"

definition restObs :: "double list" where
  "restObs = [Double (Fin 0), Double (Fin 0), Double (Fin 0), Double (Fin 0)]"

section \<open>Physics\<close>

subsection \<open>The divisor of the angular acceleration\<close>

lemma cos_sq_le_one: "cos (th::real) * cos th \<le> 1"
proof -
  have "\<bar>cos th\<bar> \<le> 1" by (rule abs_cos_le_one)
  then have "\<bar>cos th\<bar> * \<bar>cos th\<bar> \<le> 1 * 1"
    by (intro mult_mono) simp_all
  then show ?thesis by (simp add: abs_mult_self_eq)
qed

lemma totalMass_value: "totalMass = 11 / 10"
  by (simp add: totalMass_def massCart_def massPole_def)

text \<open>
  In real arithmetic the divisor of the angular acceleration is at least
  \<open>0.5 * (4/3 - 1/11)\<close> at every angle, and the total mass is not zero.
\<close>

lemma thetaAccDenom_lower:
  "0.5 * (4 / 3 - 1 / 11) \<le> thetaAccDenom th \<and> 0 < thetaAccDenom th \<and> totalMass \<noteq> 0"
proof -
  have c: "cos th * cos th \<le> 1" by (rule cos_sq_le_one)
  have e: "thetaAccDenom th = 0.5 * (4 / 3 - (cos th * cos th) / 11)"
    by (simp add: thetaAccDenom_def length_pole_def massPole_def totalMass_value)
  have "0.5 * (4 / 3 - 1 / 11) \<le> thetaAccDenom th"
    unfolding e using c by simp
  then show ?thesis by (simp add: totalMass_value)
qed

subsection \<open>One explicit Euler step\<close>

lemma stepCartPole_temp:
  "(actionValue a * forceMag + poleMassLength * thD * thD * sin th) / totalMass =
     spec_temp (actionValue a * 10) th thD"
  by (simp add: spec_temp_def forceMag_def poleMassLength_def massPole_def length_pole_def
      totalMass_def massCart_def power2_eq_square)

lemma thetaAccDenom_spec:
  "thetaAccDenom th = 0.5 * (4 / 3 - 0.1 * (cos th)\<^sup>2 / (1 + 0.1))"
  by (simp add: thetaAccDenom_def length_pole_def massPole_def totalMass_def massCart_def
      power2_eq_square)

lemma stepCartPole_thetaAcc:
  "(gravity * sin th - cos th * spec_temp f th thD) / thetaAccDenom th = spec_thetaAcc f th thD"
  unfolding thetaAccDenom_spec spec_thetaAcc_def by (simp add: gravity_def)

lemma stepCartPole_xAcc:
  "spec_temp f th thD - (poleMassLength * spec_thetaAcc f th thD * cos th) / totalMass =
     spec_xAcc f th thD"
  unfolding spec_xAcc_def
  by (simp add: poleMassLength_def massPole_def length_pole_def totalMass_def massCart_def)

lemma stepCartPole_next:
  "fst (stepCartPole st a) = spec_euler st (actionValue a)"
  unfolding stepCartPole_def Let_def fst_conv stepCartPole_temp stepCartPole_thetaAcc
    stepCartPole_xAcc spec_euler_def
  by (simp add: tau_def)

text \<open>
  Claim C3. For every state and both actions, the next state of \<^verbatim>\<open>stepCartPole\<close> is
  one explicit Euler step of the specified equations of motion with the specified
  constants; in particular from the state \<open>x = 0, xDot = 0, theta = 0.05, thetaDot = 0\<close>
  with action \<open>+1\<close> the next state is the one the specified formulas give (exactly, in
  real arithmetic).
\<close>

theorem stepCartPole_euler:
  "fst (stepCartPole st a) = spec_euler st (actionValue a) \<and>
   fst (stepCartPole \<lparr> xPos = 0, xDot = 0, theta = 0.05, thetaDot = 0 \<rparr> ActPos) =
     \<lparr> xPos = 0, xDot = 0.02 * spec_xAcc 10 0.05 0, theta = 0.05,
       thetaDot = 0.02 * spec_thetaAcc 10 0.05 0 \<rparr>"
  by (simp add: stepCartPole_next) (simp add: spec_euler_def)

subsection \<open>The terminal flag\<close>

lemma stepCartPole_done:
  "snd (stepCartPole st a) \<longleftrightarrow>
     (\<bar>xPos (fst (stepCartPole st a))\<bar> > 2.4 \<or> \<bar>theta (fst (stepCartPole st a))\<bar> > 12 * pi / 180)"
  by (simp add: stepCartPole_def Let_def trackLimit_def angleLimit_def)

text \<open>
  Claim C4. The terminal flag of \<^verbatim>\<open>stepCartPole\<close> is true exactly when the magnitude
  of the new cart position exceeds 2.4 or the magnitude of the new pole angle exceeds 12
  degrees in radians. The comparison is strict: a new angle of magnitude exactly 12
  degrees (with the cart inside the track) is not terminal. The transition is monotonic:
  if a step is terminal, every step whose new position and new angle are at least as
  large in magnitude is terminal too.
\<close>

theorem stepCartPole_terminal:
  "(snd (stepCartPole st a) \<longleftrightarrow>
      (\<bar>xPos (fst (stepCartPole st a))\<bar> > 2.4 \<or>
       \<bar>theta (fst (stepCartPole st a))\<bar> > 12 * pi / 180)) \<and>
   (\<bar>theta (fst (stepCartPole st a))\<bar> = 12 * pi / 180 \<and>
    \<bar>xPos (fst (stepCartPole st a))\<bar> \<le> 2.4 \<longrightarrow> \<not> snd (stepCartPole st a)) \<and>
   (snd (stepCartPole st a) \<and>
    \<bar>xPos (fst (stepCartPole st a))\<bar> \<le> \<bar>xPos (fst (stepCartPole st' a'))\<bar> \<and>
    \<bar>theta (fst (stepCartPole st a))\<bar> \<le> \<bar>theta (fst (stepCartPole st' a'))\<bar>
      \<longrightarrow> snd (stepCartPole st' a'))"
  unfolding stepCartPole_done [of st a] stepCartPole_done [of st' a'] by linarith

theorem stepCartPole_terminal_witness:
  "\<not> snd (stepCartPole \<lparr> xPos = 0, xDot = 0, theta = 12 * pi / 180, thetaDot = 0 \<rparr> ActPos) \<and>
   snd (stepCartPole \<lparr> xPos = 0, xDot = 0, theta = 13 * pi / 180, thetaDot = 0 \<rparr> ActPos) \<and>
   snd (stepCartPole \<lparr> xPos = 0, xDot = 0, theta = 14 * pi / 180, thetaDot = 0 \<rparr> ActNeg)"
proof -
  let ?s0 = "\<lparr> xPos = 0, xDot = 0, theta = 12 * pi / 180, thetaDot = 0 \<rparr>"
  let ?s1 = "\<lparr> xPos = 0, xDot = 0, theta = 13 * pi / 180, thetaDot = 0 \<rparr>"
  let ?s2 = "\<lparr> xPos = 0, xDot = 0, theta = 14 * pi / 180, thetaDot = 0 \<rparr>"
  have n0: "fst (stepCartPole ?s0 ActPos) = spec_euler ?s0 1"
    and n1: "fst (stepCartPole ?s1 ActPos) = spec_euler ?s1 1"
    and n2: "fst (stepCartPole ?s2 ActNeg) = spec_euler ?s2 (- 1)"
    by (simp_all add: stepCartPole_next)
  have a: "\<not> snd (stepCartPole ?s0 ActPos)"
    using stepCartPole_terminal [of ?s0 ActPos ?s0 ActPos]
    unfolding n0 by (simp add: spec_euler_def)
  have b: "snd (stepCartPole ?s1 ActPos)"
    using stepCartPole_terminal [of ?s1 ActPos ?s1 ActPos] pi_gt_zero
    unfolding n1 by (simp add: spec_euler_def)
  have c: "snd (stepCartPole ?s2 ActNeg)"
    using stepCartPole_terminal [of ?s1 ActPos ?s2 ActNeg] b pi_gt_zero
    unfolding n1 n2 by (simp add: spec_euler_def)
  show ?thesis using a b c by simp
qed

section \<open>Episode metrics\<close>

lemma metricsOnStep_funpow:
  "(metricsOnStep ^^ k) m =
     \<lparr> steps = steps m + k, totalReward = totalReward m + k, episodes = episodes m,
       best = best m, lastEp = lastEp m \<rparr>"
  by (induction k) (simp_all add: metricsOnStep_def)

text \<open>
  Claim C9. In every metrics state (so in every reachable one): a terminal step
  increments the episode count, sets \<open>last\<close> to the step count of the episode just
  finished (the running count plus the terminal step), sets \<open>best\<close> to the maximum of
  the previous \<open>best\<close> and that count, and zeroes the running step and reward counters;
  a manual reset zeroes the running counters and leaves \<open>episodes\<close>, \<open>best\<close> and \<open>last\<close>
  unchanged. Consequently an episode of \<open>k\<close> non-terminal steps and one terminal step
  after a reset, or from the initial metrics, records \<open>last = k + 1\<close>.
\<close>

theorem metrics_transitions:
  "metricsOnDone m =
     \<lparr> steps = 0, totalReward = 0, episodes = episodes m + 1,
       best = max (best m) (steps m + 1), lastEp = steps m + 1 \<rparr> \<and>
   metricsOnReset m =
     \<lparr> steps = 0, totalReward = 0, episodes = episodes m, best = best m, lastEp = lastEp m \<rparr> \<and>
   metricsOnDone ((metricsOnStep ^^ k) (metricsOnReset m)) =
     \<lparr> steps = 0, totalReward = 0, episodes = episodes m + 1,
       best = max (best m) (k + 1), lastEp = k + 1 \<rparr> \<and>
   metricsOnDone ((metricsOnStep ^^ k) initialMetrics) =
     \<lparr> steps = 0, totalReward = 0, episodes = 1, best = k + 1, lastEp = k + 1 \<rparr>"
  by (simp add: metricsOnDone_def metricsOnReset_def metricsOnStep_funpow initialMetrics_def
      Let_def)

section \<open>Action sampling\<close>

lemma sampleLoop_spec:
  assumes "cumulative = sum_list (take i probabilities)"
    and "\<forall>j<i. \<not> r < cumulativeMass probabilities j"
    and "i \<le> length probabilities" and "probabilities \<noteq> []"
  shows "0 \<le> sampleLoop probabilities r i cumulative \<and>
         sampleLoop probabilities r i cumulative < int (length probabilities) \<and>
         (if \<exists>j<length probabilities. r < cumulativeMass probabilities j
          then r < cumulativeMass probabilities (nat (sampleLoop probabilities r i cumulative)) \<and>
               (\<forall>j<nat (sampleLoop probabilities r i cumulative).
                   \<not> r < cumulativeMass probabilities j)
          else sampleLoop probabilities r i cumulative = int (length probabilities) - 1)"
  using assms
proof (induction probabilities r i cumulative rule: sampleLoop.induct)
  case (1 probabilities r i cumulative)
  show ?case
  proof (cases "i < length probabilities")
    case False
    with "1.prems" have i: "i = length probabilities" by simp
    have v: "sampleLoop probabilities r i cumulative = int (length probabilities) - 1"
      using i by (subst sampleLoop.simps) simp
    have pos: "0 < length probabilities" using "1.prems"(4) by simp
    have none: "\<not> (\<exists>j<length probabilities. r < cumulativeMass probabilities j)"
      using "1.prems"(2) i by blast
    show ?thesis unfolding v using pos none by auto
  next
    case True
    let ?c = "cumulative + probabilities ! i"
    have c: "?c = cumulativeMass probabilities i"
      using True "1.prems"(1) by (simp add: cumulativeMass_def take_Suc_conv_app_nth)
    show ?thesis
    proof (cases "r < ?c")
      case hit: True
      have v: "sampleLoop probabilities r i cumulative = int i"
        using True hit by (subst sampleLoop.simps) (simp add: Let_def)
      have ex: "\<exists>j<length probabilities. r < cumulativeMass probabilities j"
        using True hit c by auto
      show ?thesis unfolding v using True hit c ex "1.prems"(2) by simp
    next
      case miss: False
      have v: "sampleLoop probabilities r i cumulative = sampleLoop probabilities r (i + 1) ?c"
        using True miss by (subst sampleLoop.simps) (simp add: Let_def)
      have p1: "?c = sum_list (take (i + 1) probabilities)"
        using c by (simp add: cumulativeMass_def)
      have p2: "\<forall>j<i + 1. \<not> r < cumulativeMass probabilities j"
        using "1.prems"(2) miss c by (auto simp: less_Suc_eq)
      have p3: "i + 1 \<le> length probabilities" using True by simp
      show ?thesis unfolding v
        by (rule "1.IH" [OF True refl miss p1 p2 p3 "1.prems"(4)])
    qed
  qed
qed

text \<open>
  Claim C8. For every non-empty probability vector and every draw (in particular every
  draw in \<open>[0,1)\<close>), \<^verbatim>\<open>sampleActionIndex\<close> returns a valid index of the vector: the
  first index at which the running cumulative mass exceeds the draw if there is one, and
  the last index otherwise.
\<close>

theorem sampleActionIndex_first_exceeding:
  assumes "probabilities \<noteq> []"
  shows "0 \<le> sampleActionIndex probabilities r \<and>
         sampleActionIndex probabilities r < int (length probabilities) \<and>
         (if \<exists>j<length probabilities. r < cumulativeMass probabilities j
          then r < cumulativeMass probabilities (nat (sampleActionIndex probabilities r)) \<and>
               (\<forall>j<nat (sampleActionIndex probabilities r).
                   \<not> r < cumulativeMass probabilities j)
          else sampleActionIndex probabilities r = int (length probabilities) - 1)"
  unfolding sampleActionIndex_def
  by (rule sampleLoop_spec) (use assms in simp_all)

theorem sampleActionIndex_witness:
  "[0.25, 0.75 :: real] \<noteq> [] \<and> 0 \<le> sampleActionIndex [0.25, 0.75] 0.5 \<and>
   sampleActionIndex [0.25, 0.75] 0.5 < 2"
proof -
  have ne: "[0.25, 0.75 :: real] \<noteq> []" by simp
  show ?thesis
    using sampleActionIndex_first_exceeding [OF ne, of "0.5"] by simp
qed

section \<open>Trainer\<close>

text \<open>
  Claim C7. For every parameter set, \<^verbatim>\<open>trainOnEpisode\<close> on the empty trajectory
  returns the input parameters, equal in each of the fields \<open>W1\<close>, \<open>b1\<close>, \<open>W2\<close>, \<open>b2\<close>.
\<close>

theorem trainOnEpisode_empty:
  "trainOnEpisode params [] = params \<and>
   W1 (trainOnEpisode params []) = W1 params \<and> b1 (trainOnEpisode params []) = b1 params \<and>
   W2 (trainOnEpisode params []) = W2 params \<and> b2 (trainOnEpisode params []) = b2 params"
  by (simp add: trainOnEpisode_def)

subsection \<open>Discounted returns\<close>

lemma returnsLoop_length:
  "length (returnsLoop trajectory k d rets) = length rets"
  by (induction k arbitrary: d rets) (simp_all add: Let_def)

lemma returnsLoop_above:
  "k \<le> t \<Longrightarrow> returnsLoop trajectory k d rets ! t = rets ! t"
  by (induction k arbitrary: d rets) (simp_all add: Let_def)

lemma returnsLoop_top:
  "k < length rets \<Longrightarrow>
   returnsLoop trajectory (Suc k) d rets ! k = reward (trajectory ! k) + discountFactor * d"
  by (simp add: Let_def returnsLoop_above)

lemma returnsLoop_step:
  "Suc t < k \<Longrightarrow> k \<le> length rets \<Longrightarrow>
   returnsLoop trajectory k d rets ! t =
     reward (trajectory ! t) + discountFactor * returnsLoop trajectory k d rets ! Suc t"
proof (induction k arbitrary: d rets)
  case 0
  then show ?case by simp
next
  case (Suc k)
  let ?d = "reward (trajectory ! k) + discountFactor * d"
  have unfold: "returnsLoop trajectory (Suc k) d rets = returnsLoop trajectory k ?d (rets[k := ?d])"
    by (simp add: Let_def)
  show ?case
  proof (cases "Suc t < k")
    case True
    then show ?thesis unfolding unfold using Suc.prems by (intro Suc.IH) simp_all
  next
    case False
    with Suc.prems have k: "k = Suc t" by simp
    have "returnsLoop trajectory k ?d (rets[k := ?d]) ! k = (rets[k := ?d]) ! k"
      by (rule returnsLoop_above) simp
    moreover have "k < length rets" using Suc.prems by simp
    ultimately have a: "returnsLoop trajectory k ?d (rets[k := ?d]) ! Suc t = ?d"
      unfolding k by simp
    have b: "returnsLoop trajectory (Suc t) ?d (rets[k := ?d]) ! t =
               reward (trajectory ! t) + discountFactor * ?d"
      using Suc.prems k by (intro returnsLoop_top) simp
    show ?thesis unfolding unfold a using b unfolding k by simp
  qed
qed

lemma discountFactor_real: "(discountFactor :: real) = 0.99"
  by (simp add: discountFactor_def)

text \<open>
  Claim C2. For every non-empty trajectory the returns computed by \<^verbatim>\<open>trainOnEpisode\<close>
  have the length of the trajectory, the last entry is the last step's reward, and every
  earlier entry is that step's reward plus 0.99 times the next entry; for rewards
  \<open>[1, 1, 1]\<close> the returns are \<open>[1 + 0.99 + 0.99\<^sup>2, 1 + 0.99, 1]\<close> within \<open>1e-9\<close>.
\<close>

theorem computeReturns_recursion:
  fixes trajectory :: "real PolicyStep list"
  assumes "trajectory \<noteq> []"
  shows "length (computeReturns trajectory) = length trajectory \<and>
         last (computeReturns trajectory) = reward (last trajectory) \<and>
         (\<forall>t. Suc t < length trajectory \<longrightarrow>
            computeReturns trajectory ! t =
              reward (trajectory ! t) + 0.99 * computeReturns trajectory ! Suc t) \<and>
         (map reward trajectory = [1, 1, 1] \<longrightarrow>
            \<bar>computeReturns trajectory ! 0 - (1 + 0.99 + 0.99\<^sup>2)\<bar> \<le> 1 / 10 ^ 9 \<and>
            \<bar>computeReturns trajectory ! 1 - (1 + 0.99)\<bar> \<le> 1 / 10 ^ 9 \<and>
            \<bar>computeReturns trajectory ! 2 - 1\<bar> \<le> 1 / 10 ^ 9)"
proof -
  let ?n = "length trajectory"
  let ?rs = "computeReturns trajectory"
  have len: "length ?rs = ?n"
    by (simp add: computeReturns_def returnsLoop_length)
  from assms obtain m where n: "?n = Suc m" by (cases trajectory) auto
  have lastv: "?rs ! m = reward (trajectory ! m)"
    unfolding computeReturns_def n
    by (subst returnsLoop_top) (simp_all add: discountFactor_real)
  have rne: "?rs \<noteq> []" using len n by auto
  have lst: "last ?rs = reward (last trajectory)"
    using lastv len n by (simp add: last_conv_nth [OF rne] last_conv_nth [OF assms])
  have step: "Suc t < ?n \<Longrightarrow> ?rs ! t = reward (trajectory ! t) + 0.99 * ?rs ! Suc t" for t
    unfolding computeReturns_def
    by (subst returnsLoop_step) (simp_all add: discountFactor_real)
  have ex: "\<bar>?rs ! 0 - (1 + 0.99 + 0.99\<^sup>2)\<bar> \<le> 1 / 10 ^ 9 \<and>
            \<bar>?rs ! 1 - (1 + 0.99)\<bar> \<le> 1 / 10 ^ 9 \<and> \<bar>?rs ! 2 - 1\<bar> \<le> 1 / 10 ^ 9"
    if r: "map reward trajectory = [1, 1, 1]"
  proof -
    from r have l3: "?n = 3" by (metis length_map length_Cons list.size(3) numeral_3_eq_3)
    have r0: "reward (trajectory ! 0) = 1" and r1: "reward (trajectory ! 1) = 1"
      and r2: "reward (trajectory ! 2) = 1"
      using r l3 by (metis nth_map nth_Cons_0 zero_less_numeral,
          metis nth_map nth_Cons_0 nth_Cons_Suc One_nat_def one_less_numeral_iff semiring_norm(77),
          metis nth_map nth_Cons_0 nth_Cons_Suc numeral_2_eq_2 lessI numeral_3_eq_3)
    have m2: "m = 2" using n l3 by simp
    have v2: "?rs ! 2 = 1" using lastv m2 r2 by simp
    have v1: "?rs ! 1 = 1 + 0.99 * 1" using step [of 1] l3 r1 v2 by (simp add: numeral_2_eq_2)
    have v0: "?rs ! 0 = 1 + 0.99 * (1 + 0.99 * 1)" using step [of 0] l3 r0 v1 by simp
    show ?thesis unfolding v0 v1 v2 by (simp add: power2_eq_square)
  qed
  show ?thesis using len lst step ex by blast
qed

theorem computeReturns_recursion_witness:
  "[\<lparr> state = [0, 0, 0.05, 0], hidden = replicate 8 0, probs = [0.5, 0.5], actionIndex = 0,
      reward = 1 :: real \<rparr>,
    \<lparr> state = [0, 0, 0.05, 0], hidden = replicate 8 0, probs = [0.5, 0.5], actionIndex = 1,
      reward = 1 \<rparr>,
    \<lparr> state = [0, 0, 0.05, 0], hidden = replicate 8 0, probs = [0.5, 0.5], actionIndex = 0,
      reward = 1 \<rparr>] \<noteq> [] \<and>
   computeReturns
     [\<lparr> state = [0, 0, 0.05, 0], hidden = replicate 8 0, probs = [0.5, 0.5], actionIndex = 0,
        reward = 1 :: real \<rparr>,
      \<lparr> state = [0, 0, 0.05, 0], hidden = replicate 8 0, probs = [0.5, 0.5], actionIndex = 1,
        reward = 1 \<rparr>,
      \<lparr> state = [0, 0, 0.05, 0], hidden = replicate 8 0, probs = [0.5, 0.5], actionIndex = 0,
        reward = 1 \<rparr>] = [2.9701, 1.99, 1]"
proof -
  let ?s = "\<lambda>a. \<lparr> state = [0, 0, 0.05, 0], hidden = replicate 8 0, probs = [0.5, 0.5],
               actionIndex = a, reward = 1 :: real \<rparr>"
  let ?tr = "[?s 0, ?s 1, ?s 0]"
  have ne: "?tr \<noteq> []" by simp
  have r: "map reward ?tr = [1, 1, 1]" by simp
  note c = computeReturns_recursion [OF ne]
  have len: "length (computeReturns ?tr) = 3" using c by simp
  have l: "last (computeReturns ?tr) = 1" using c by simp
  have s1: "computeReturns ?tr ! 1 = 1 + 0.99 * computeReturns ?tr ! 2"
    using c by (simp add: numeral_2_eq_2)
  have s0: "computeReturns ?tr ! 0 = 1 + 0.99 * computeReturns ?tr ! 1"
    using c by simp
  from len obtain a b d where abd: "computeReturns ?tr = [a, b, d]"
    by (auto simp: length_Suc_conv numeral_3_eq_3)
  show ?thesis using l s1 s0 unfolding abd by (simp add: numeral_2_eq_2)
qed

subsection \<open>Gradient accumulation in closed form\<close>

text \<open>
  The loops over the output and hidden units write every gradient entry exactly once per
  step; the lemmas below give the entries after one step.
\<close>

lemma upt_outputSize: "[0..<outputSize] = [0, 1]"
  by (simp add: outputSize_def upt_rec)

lemma fold_rowW2:
  "fold (\<lambda>h g'. g'\<lparr>gradW2 := addAt (gradW2 g') (base + h) (f h)\<rparr>) ns g =
     g\<lparr>gradW2 := fold (\<lambda>h ys. addAt ys (base + h) (f h)) ns (gradW2 g)\<rparr>"
  by (induction ns arbitrary: g) simp_all

lemma fold_rowW1:
  "fold (\<lambda>i g'. g'\<lparr>gradW1 := addAt (gradW1 g') (base + i) (f i)\<rparr>) ns g =
     g\<lparr>gradW1 := fold (\<lambda>i ys. addAt ys (base + i) (f i)) ns (gradW1 g)\<rparr>"
  by (induction ns arbitrary: g) simp_all

lemma rowFold_length:
  "length (fold (\<lambda>h ys. addAt ys (base + h) (f h)) [0..<n] xs) = length xs"
  by (induction n) (simp_all add: addAt_def)

lemma rowFold_nth:
  "k < length xs \<Longrightarrow>
   fold (\<lambda>h ys. addAt ys (base + h) (f h)) [0..<n] xs ! k =
     (if base \<le> k \<and> k < base + n then xs ! k + f (k - base) else xs ! k)"
proof (induction n)
  case 0
  then show ?case by auto
next
  case (Suc n)
  let ?ys = "fold (\<lambda>h ys. addAt ys (base + h) (f h)) [0..<n] xs"
  have len: "length ?ys = length xs" by (rule rowFold_length)
  have unfold: "fold (\<lambda>h ys. addAt ys (base + h) (f h)) [0..<Suc n] xs =
                  ?ys[base + n := ?ys ! (base + n) + f n]"
    by (simp add: addAt_def)
  show ?case
  proof (cases "k = base + n")
    case True
    then have "?ys ! (base + n) = xs ! (base + n)" using Suc by simp
    then show ?thesis unfolding unfold using True Suc.prems len by simp
  next
    case False
    then show ?thesis unfolding unfold using Suc len by (auto simp: nth_list_update)
  qed
qed

lemma accumulateOutput_snd:
  "snd (accumulateOutput step adv g) = [outputError step adv 0, outputError step adv 1]"
  unfolding accumulateOutput_def upt_outputSize
  by (simp add: Let_def split_def outputError_def outputSize_def numeral_2_eq_2)

lemma rowFold0_length:
  "length (fold (\<lambda>h ys. addAt ys h (f h)) [0..<n] xs) = length xs"
  using rowFold_length [of 0 f n xs] by simp

lemma rowFold0_nth:
  "k < length xs \<Longrightarrow>
   fold (\<lambda>h ys. addAt ys h (f h)) [0..<n] xs ! k = (if k < n then xs ! k + f k else xs ! k)"
  using rowFold_nth [of k xs 0 f n] by simp

lemma accumulateOutput_fst:
  "fst (accumulateOutput step adv g) =
     g\<lparr>gradb2 := addAt (addAt (gradb2 g) 0 (outputError step adv 0)) 1 (outputError step adv 1),
       gradW2 := fold (\<lambda>h ys. addAt ys (hiddenSize + h) (outputError step adv 1 * hidden step ! h))
                   [0..<hiddenSize]
                   (fold (\<lambda>h ys. addAt ys h (outputError step adv 0 * hidden step ! h))
                      [0..<hiddenSize] (gradW2 g))\<rparr>"
  unfolding accumulateOutput_def upt_outputSize
  by (simp add: Let_def split_def outputError_def fold_rowW2)

lemma accumulateHidden_alt:
  "accumulateHidden params step delta2 g0 =
     fold (\<lambda>h g. g\<lparr>gradb1 := addAt (gradb1 g) h (hiddenError params step delta2 h),
                    gradW1 := fold (\<lambda>i ys. addAt ys (h * inputSize + i)
                                       (hiddenError params step delta2 h * state step ! i))
                                [0..<inputSize] (gradW1 g)\<rparr>)
          [0..<hiddenSize] g0"
  by (simp add: accumulateHidden_def Let_def hiddenError_def fold_rowW1)

lemma block_div_mod:
  fixes k n m :: nat
  assumes "n * m \<le> k" and "k < n * m + m"
  shows "k div m = n" and "k mod m = k - n * m"
proof -
  from assms obtain r where k: "k = n * m + r" and r: "r < m"
    by (metis add_less_cancel_left le_Suc_ex)
  show "k div m = n" using k r by simp
  show "k mod m = k - n * m" using k r by simp
qed

lemma hiddenFold:
  fixes e :: "nat \<Rightarrow> 'a::{plus,times}" and s :: "'a list"
  assumes "0 < m"
  defines "F \<equiv> \<lambda>h g. g\<lparr>gradb1 := addAt (gradb1 g) h (e h),
                        gradW1 := fold (\<lambda>i ys. addAt ys (h * m + i) (e h * s ! i))
                                    [0..<m] (gradW1 g)\<rparr>"
  shows "length (gradb1 (fold F [0..<n] g)) = length (gradb1 g) \<and>
         length (gradW1 (fold F [0..<n] g)) = length (gradW1 g) \<and>
         gradW2 (fold F [0..<n] g) = gradW2 g \<and> gradb2 (fold F [0..<n] g) = gradb2 g \<and>
         (\<forall>k<length (gradb1 g). gradb1 (fold F [0..<n] g) ! k =
              (if k < n then gradb1 g ! k + e k else gradb1 g ! k)) \<and>
         (\<forall>k<length (gradW1 g). gradW1 (fold F [0..<n] g) ! k =
              (if k < n * m then gradW1 g ! k + e (k div m) * s ! (k mod m)
               else gradW1 g ! k))"
proof (induction n)
  case 0
  show ?case by simp
next
  case (Suc n)
  let ?r = "fold F [0..<n] g"
  have unfold: "fold F [0..<Suc n] g = F n ?r" by simp
  have b1v: "gradb1 (F n ?r) = (gradb1 ?r)[n := gradb1 ?r ! n + e n]"
    by (simp add: F_def addAt_def)
  have w1v: "gradW1 (F n ?r) =
               fold (\<lambda>i ys. addAt ys (n * m + i) (e n * s ! i)) [0..<m] (gradW1 ?r)"
    by (simp add: F_def)
  have oth: "gradW2 (F n ?r) = gradW2 ?r" "gradb2 (F n ?r) = gradb2 ?r"
    by (simp_all add: F_def)
  have l1: "length (gradb1 (F n ?r)) = length (gradb1 g)"
    unfolding b1v using Suc.IH by simp
  have l2: "length (gradW1 (F n ?r)) = length (gradW1 g)"
    unfolding w1v rowFold_length using Suc.IH by simp
  have n1: "gradb1 (F n ?r) ! k = (if k < Suc n then gradb1 g ! k + e k else gradb1 g ! k)"
    if "k < length (gradb1 g)" for k
    unfolding b1v using that Suc.IH by (auto simp: nth_list_update less_Suc_eq)
  have n2: "gradW1 (F n ?r) ! k =
              (if k < Suc n * m then gradW1 g ! k + e (k div m) * s ! (k mod m)
               else gradW1 g ! k)"
    if k: "k < length (gradW1 g)" for k
  proof -
    have kl: "k < length (gradW1 ?r)" using k Suc.IH by simp
    have old: "gradW1 ?r ! k =
                 (if k < n * m then gradW1 g ! k + e (k div m) * s ! (k mod m)
                  else gradW1 g ! k)"
      using k Suc.IH by simp
    show ?thesis
    proof (cases "n * m \<le> k \<and> k < n * m + m")
      case True
      then have dm: "k div m = n" "k mod m = k - n * m"
        using block_div_mod [of n m k] by simp_all
      show ?thesis unfolding w1v rowFold_nth [OF kl] old using True dm by simp
    next
      case False
      then show ?thesis unfolding w1v rowFold_nth [OF kl] old by auto
    qed
  qed
  show ?case unfolding unfold using l1 l2 oth n1 n2 Suc.IH by simp
qed

lemma mapIndexed_length: "length (mapIndexed f xs) = length xs"
  by (simp add: mapIndexed_def)

lemma mapIndexed_nth: "k < length xs \<Longrightarrow> mapIndexed f xs ! k = f (xs ! k) k"
  by (simp add: mapIndexed_def)

lemma accumulateGradients_single:
  "accumulateGradients params [step] rs = accumulateStep params step (rs ! 0) zeroGradients"
  by (simp add: accumulateGradients_def)

lemma accumulateStep_alt:
  "accumulateStep params step adv g =
     accumulateHidden params step [outputError step adv 0, outputError step adv 1]
       (fst (accumulateOutput step adv g))"
  using accumulateOutput_snd [of step adv g]
  by (simp add: accumulateStep_def split_def)

section \<open>Non-finite values in the trainer\<close>

lemma numeral_jsnum: "(numeral n :: jsnum) = Fin (numeral n)"
proof (induction n)
  case One
  show ?case by (simp add: one_jsnum_def)
next
  case (Bit0 n)
  have "(numeral (num.Bit0 n) :: jsnum) = numeral n + numeral n" by (rule numeral.simps)
  also have "\<dots> = Fin (numeral n) + Fin (numeral n)" by (simp only: Bit0.IH)
  also have "\<dots> = Fin (numeral n + numeral n)" by simp
  also have "numeral n + numeral n = (numeral (num.Bit0 n) :: real)"
    by (simp only: numeral.simps)
  finally show ?case .
next
  case (Bit1 n)
  have "(numeral (num.Bit1 n) :: jsnum) = numeral n + numeral n + 1" by (rule numeral.simps)
  also have "\<dots> = Fin (numeral n) + Fin (numeral n) + Fin 1"
    by (simp only: Bit1.IH one_jsnum_def)
  also have "\<dots> = Fin (numeral n + numeral n + 1)" by simp
  also have "numeral n + numeral n + 1 = (numeral (num.Bit1 n) :: real)"
    by (simp only: numeral.simps)
  finally show ?case .
qed

lemma power_jsnum: "(Fin a) ^ n = Fin (a ^ n)"
  by (induction n) (simp_all add: one_jsnum_def)

lemma numOfNat_jsnum: "(numOfNat n :: jsnum) = Fin (real n)"
  by (induction n) (simp_all add: zero_jsnum_def one_jsnum_def)

lemma updateScale_jsnum: "(updateScale n :: jsnum) = Fin (0.02 / real (max 1 n))"
  by (simp add: updateScale_def learningRate_def numeral_jsnum power_jsnum numOfNat_jsnum)

lemma updateScale_jsnum_pos: "0 < 0.02 / real (max 1 n)"
  by simp

lemma plus_nonfinite:
  fixes x y :: jsnum
  shows "\<not> isFinite x \<or> \<not> isFinite y \<Longrightarrow> \<not> isFinite (x + y)"
  by (cases x; cases y) simp_all

lemma times_pos_nonfinite:
  "0 < c \<Longrightarrow> \<not> isFinite g \<Longrightarrow> \<not> isFinite (Fin c * g)"
  by (cases g) simp_all

lemma accumulateStep_fields:
  "gradb2 (accumulateStep params step adv g) =
     addAt (addAt (gradb2 g) 0 (outputError step adv 0)) 1 (outputError step adv 1)"
  "length (gradW2 (accumulateStep params step adv g)) = length (gradW2 g)"
  "length (gradb1 (accumulateStep params step adv g)) = length (gradb1 g)"
  "length (gradW1 (accumulateStep params step adv g)) = length (gradW1 g)"
proof -
  let ?d = "[outputError step adv 0, outputError step adv 1]"
  let ?g1 = "fst (accumulateOutput step adv g)"
  have pos: "0 < inputSize" by (simp add: inputSize_def)
  note hf = hiddenFold [OF pos, of "hiddenError params step ?d" "state step" hiddenSize ?g1,
      folded accumulateHidden_alt, folded accumulateStep_alt]
  show "gradb2 (accumulateStep params step adv g) =
     addAt (addAt (gradb2 g) 0 (outputError step adv 0)) 1 (outputError step adv 1)"
    using hf by (simp add: accumulateOutput_fst)
  show "length (gradW2 (accumulateStep params step adv g)) = length (gradW2 g)"
    using hf by (simp add: accumulateOutput_fst rowFold_length rowFold0_length)
  show "length (gradb1 (accumulateStep params step adv g)) = length (gradb1 g)"
    using hf by (simp add: accumulateOutput_fst)
  show "length (gradW1 (accumulateStep params step adv g)) = length (gradW1 g)"
    using hf by (simp add: accumulateOutput_fst)
qed

lemma accumulateStep_length_b2:
  "length (gradb2 (accumulateStep params step adv g)) = length (gradb2 g)"
  by (simp add: accumulateStep_fields(1) addAt_def)

lemma fold_accumulateStep_lengths:
  "length (gradW1 (fold (\<lambda>t g. accumulateStep params (f t) (r t) g) ts g0)) = length (gradW1 g0) \<and>
   length (gradb1 (fold (\<lambda>t g. accumulateStep params (f t) (r t) g) ts g0)) = length (gradb1 g0) \<and>
   length (gradW2 (fold (\<lambda>t g. accumulateStep params (f t) (r t) g) ts g0)) = length (gradW2 g0) \<and>
   length (gradb2 (fold (\<lambda>t g. accumulateStep params (f t) (r t) g) ts g0)) = length (gradb2 g0)"
  by (induction ts arbitrary: g0)
    (simp_all add: accumulateStep_fields(2-4) accumulateStep_length_b2)

lemma episodeGradients_lengths:
  "length (gradW1 (episodeGradients params trajectory)) = hiddenSize * inputSize"
  "length (gradb1 (episodeGradients params trajectory)) = hiddenSize"
  "length (gradW2 (episodeGradients params trajectory)) = outputSize * hiddenSize"
  "length (gradb2 (episodeGradients params trajectory)) = outputSize"
  using fold_accumulateStep_lengths [of params "\<lambda>t. trajectory ! t"
      "\<lambda>t. computeReturns trajectory ! t" "[0..<length trajectory]" zeroGradients]
  by (simp_all add: episodeGradients_def accumulateGradients_def zeroGradients_def)

lemma propagates_mapIndexed:
  assumes "length grad = length old" and "0 < c"
  shows "propagates (Fin c) old grad
           (mapIndexed (\<lambda>weight index. weight + Fin c * grad ! index) old)"
  unfolding propagates_def
  using assms plus_nonfinite times_pos_nonfinite [OF assms(2)]
  by (auto simp: mapIndexed_length mapIndexed_nth)

lemma nanStep_gradb2:
  "gradb2 (episodeGradients zeroParams [nanStep]) = [NaN, NaN]"
proof -
  let ?r = "computeReturns [nanStep] ! 0"
  have e: "outputError nanStep ?r 0 = NaN" "outputError nanStep ?r (Suc 0) = NaN"
    by (simp_all add: outputError_def nanStep_def one_jsnum_def zero_jsnum_def minus_jsnum_def)
  show ?thesis
    by (simp add: episodeGradients_def accumulateGradients_single accumulateStep_fields(1)
        e addAt_def zeroGradients_def outputSize_def zero_jsnum_def numeral_2_eq_2)
qed

lemma zeroParams_wf: "wfParams zeroParams"
  by (simp add: wfParams_def zeroParams_def hiddenSize_def inputSize_def outputSize_def)

text \<open>
  Claim C1, as amended. \<^verbatim>\<open>trainOnEpisode\<close> has no check for non-finite values. For
  every parameter set and every non-empty trajectory of the fixed shapes, each returned
  parameter is the old parameter plus \<open>0.02 / length\<close> times the accumulated gradient
  entry, and wherever the accumulated gradient entry or the old parameter is non-finite
  (\<open>NaN\<close> or infinite) the returned parameter is non-finite as well: the update is kept,
  not discarded.
\<close>

theorem trainOnEpisode_propagates_nonfinite:
  fixes params :: "jsnum NetworkParams"
  assumes wf: "wfParams params" and steps: "\<forall>step \<in> set trajectory. wfStep step"
    and ne: "trajectory \<noteq> []"
  shows "propagates (updateScale (length trajectory)) (W1 params)
           (gradW1 (episodeGradients params trajectory)) (W1 (trainOnEpisode params trajectory)) \<and>
         propagates (updateScale (length trajectory)) (b1 params)
           (gradb1 (episodeGradients params trajectory)) (b1 (trainOnEpisode params trajectory)) \<and>
         propagates (updateScale (length trajectory)) (W2 params)
           (gradW2 (episodeGradients params trajectory)) (W2 (trainOnEpisode params trajectory)) \<and>
         propagates (updateScale (length trajectory)) (b2 params)
           (gradb2 (episodeGradients params trajectory)) (b2 (trainOnEpisode params trajectory))"
proof -
  let ?g = "episodeGradients params trajectory"
  let ?c = "0.02 / real (max 1 (length trajectory))"
  have c: "0 < ?c" by simp
  have T: "trainOnEpisode params trajectory =
      \<lparr> W1 = mapIndexed (\<lambda>weight index. weight + Fin ?c * gradW1 ?g ! index) (W1 params),
        b1 = mapIndexed (\<lambda>bias index. bias + Fin ?c * gradb1 ?g ! index) (b1 params),
        W2 = mapIndexed (\<lambda>weight index. weight + Fin ?c * gradW2 ?g ! index) (W2 params),
        b2 = mapIndexed (\<lambda>bias index. bias + Fin ?c * gradb2 ?g ! index) (b2 params) \<rparr>"
    using ne by (simp add: trainOnEpisode_def Let_def updateScale_jsnum)
  have l: "length (gradW1 ?g) = length (W1 params)" "length (gradb1 ?g) = length (b1 params)"
    "length (gradW2 ?g) = length (W2 params)" "length (gradb2 ?g) = length (b2 params)"
    using wf by (simp_all add: episodeGradients_lengths wfParams_def)
  show ?thesis
    unfolding updateScale_jsnum T
    using propagates_mapIndexed [OF l(1) c] propagates_mapIndexed [OF l(2) c]
      propagates_mapIndexed [OF l(3) c] propagates_mapIndexed [OF l(4) c]
    by simp
qed

theorem trainOnEpisode_propagates_nonfinite_witness:
  "wfParams zeroParams \<and> wfStep nanStep \<and> [nanStep] \<noteq> [] \<and>
   length (b2 (trainOnEpisode zeroParams [nanStep])) = 2 \<and>
   \<not> isFinite (gradb2 (episodeGradients zeroParams [nanStep]) ! 1) \<and>
   \<not> isFinite (b2 (trainOnEpisode zeroParams [nanStep]) ! 1)"
proof -
  have ne: "[nanStep] \<noteq> []" by simp
  have st: "\<forall>step \<in> set [nanStep]. wfStep step"
    by (simp add: wfStep_def nanStep_def inputSize_def hiddenSize_def outputSize_def)
  have l: "length (b2 zeroParams) = 2" by (simp add: zeroParams_def)
  have g: "\<not> isFinite (gradb2 (episodeGradients zeroParams [nanStep]) ! 1)"
    by (simp add: nanStep_gradb2)
  have "propagates (updateScale (length [nanStep])) (b2 zeroParams)
          (gradb2 (episodeGradients zeroParams [nanStep]))
          (b2 (trainOnEpisode zeroParams [nanStep]))"
    using trainOnEpisode_propagates_nonfinite [OF zeroParams_wf st ne] by simp
  then have len: "length (b2 (trainOnEpisode zeroParams [nanStep])) = length (b2 zeroParams)"
    and all: "\<forall>k<length (b2 zeroParams).
        \<not> isFinite (gradb2 (episodeGradients zeroParams [nanStep]) ! k) \<or>
        \<not> isFinite (b2 zeroParams ! k) \<longrightarrow>
        \<not> isFinite (b2 (trainOnEpisode zeroParams [nanStep]) ! k)"
    unfolding propagates_def by blast+
  have "(1::nat) < length (b2 zeroParams)" unfolding l by simp
  with all g have "\<not> isFinite (b2 (trainOnEpisode zeroParams [nanStep]) ! 1)"
    by blast
  then show ?thesis using zeroParams_wf st ne len l g by simp
qed

text \<open>
  Claim C1, counterexample. With zero parameters and one recorded step whose hidden
  activations and probabilities are \<open>NaN\<close>, the accumulated gradient of the first output
  bias is non-finite, and \<^verbatim>\<open>trainOnEpisode\<close> returns parameters whose first output bias
  is non-finite, different from the input parameters.
\<close>

theorem nonfinite_update_not_discarded:
  "\<not> isFinite (gradb2 (episodeGradients zeroParams [nanStep]) ! 0) \<and>
   \<not> isFinite (b2 (trainOnEpisode zeroParams [nanStep]) ! 0) \<and>
   trainOnEpisode zeroParams [nanStep] \<noteq> zeroParams"
proof -
  have g: "gradb2 (episodeGradients zeroParams [nanStep]) ! 0 = NaN"
    by (simp add: nanStep_gradb2)
  have T: "b2 (trainOnEpisode zeroParams [nanStep]) =
      mapIndexed (\<lambda>bias index. bias + updateScale (Suc 0) *
                   gradb2 (episodeGradients zeroParams [nanStep]) ! index) (b2 zeroParams)"
    by (simp add: trainOnEpisode_def Let_def)
  have l: "0 < length (b2 zeroParams)" by (simp add: zeroParams_def)
  have b: "b2 (trainOnEpisode zeroParams [nanStep]) ! 0 = NaN"
    unfolding T mapIndexed_nth [OF l] g updateScale_jsnum
    by (cases "b2 zeroParams ! 0") simp_all
  have "b2 zeroParams ! 0 = Fin 0" by (simp add: zeroParams_def zero_jsnum_def)
  with b have "b2 (trainOnEpisode zeroParams [nanStep]) \<noteq> b2 zeroParams" by auto
  then have "trainOnEpisode zeroParams [nanStep] \<noteq> zeroParams" by auto
  then show ?thesis using g b by simp
qed

section \<open>Rounding to binary64\<close>

text \<open>
  Properties of the rounding: it is monotone and odd, exact on the numbers of the format
  (in particular on the powers of two and on its own results), and within half a unit in
  the last place of its argument.
\<close>

lemma rne_of_int [simp]: "rne (of_int n) = n"
  by (simp add: rne_def)

lemma rne_zero [simp]: "rne 0 = 0"
  by (simp add: rne_def)

lemma pow_split53: "(2::real) powr (r + 1) = 2 powr 53 * 2 powr (r - 52)"
proof -
  have "r + 1 = 53 + (r - 52)" by simp
  then show ?thesis by (simp only: powr_add)
qed

lemma pow_split52: "(2::real) powr r = 2 powr 52 * 2 powr (r - 52)"
proof -
  have "r = 52 + (r - 52)" by simp
  then show ?thesis by (metis powr_add)
qed

lemma rne_bounds: "\<lfloor>y\<rfloor> \<le> rne y" "rne y \<le> \<lfloor>y\<rfloor> + 1"
  by (simp_all add: rne_def Let_def)

lemma rne_mono: assumes "y \<le> z" shows "rne y \<le> rne z"
proof (cases "\<lfloor>y\<rfloor> = \<lfloor>z\<rfloor>")
  case True
  then show ?thesis using assms by (auto simp: rne_def Let_def)
next
  case False
  with assms have "\<lfloor>y\<rfloor> < \<lfloor>z\<rfloor>" by (simp add: floor_mono order.not_eq_order_implies_strict)
  then have "rne y \<le> \<lfloor>z\<rfloor>" using rne_bounds(2) [of y] by linarith
  then show ?thesis using rne_bounds(1) [of z] by linarith
qed

lemma rne_minus: "rne (- y) = - rne y"
proof (cases "y = of_int \<lfloor>y\<rfloor>")
  case True
  then obtain n where "y = of_int n" ..
  then show ?thesis by (simp flip: of_int_minus)
next
  case False
  then have fl: "\<lfloor>- y\<rfloor> = - \<lfloor>y\<rfloor> - 1"
    by (metis ceiling_altdef ceiling_def diff_minus_eq_add minus_diff_eq of_int_floor_cancel uminus_add_conv_diff add.inverse_inverse)
  define f where "f = \<lfloor>y\<rfloor>"
  define d where "d = y - of_int f"
  have d: "0 < d" "d < 1" using False unfolding d_def f_def by linarith+
  have d': "- y - of_int (- f - 1) = 1 - d" unfolding d_def by simp
  have ev: "even (- f - 1) \<longleftrightarrow> odd f" by simp
  show ?thesis
    unfolding rne_def Let_def fl f_def [symmetric] d' d_def [symmetric] ev
    using d by auto
qed

lemma rne_error: "\<bar>of_int (rne y) - y\<bar> \<le> 1 / 2"
proof -
  define f where "f = \<lfloor>y\<rfloor>"
  define d where "d = y - of_int f"
  have d: "0 \<le> d" "d < 1" unfolding d_def f_def by linarith+
  have y: "y = of_int f + d" unfolding d_def by simp
  have r: "rne y = (if d < 1 / 2 then f else if 1 / 2 < d then f + 1
                    else if even f then f else f + 1)"
    unfolding rne_def Let_def f_def [symmetric] d_def [symmetric] ..
  show ?thesis using d y unfolding r by (auto simp: abs_if)
qed

lemma rne_le_int: "y \<le> of_int n \<Longrightarrow> rne y \<le> n"
  using rne_mono [of y "of_int n"] by simp

lemma rne_ge_int: "of_int n \<le> y \<Longrightarrow> n \<le> rne y"
  using rne_mono [of "of_int n" y] by simp

lemma expoD_minus [simp]: "expoD (- x) = expoD x"
  by (simp add: expoD_def)

lemma ulpD_minus [simp]: "ulpD (- x) = ulpD x"
  by (simp add: ulpD_def)

lemma ulpD_pos: "0 < ulpD x"
  by (simp add: ulpD_def)

lemma roundR_minus: "roundR (- x) = - roundR x"
  by (simp add: roundR_def rne_minus)

lemma roundR_zero [simp]: "roundR 0 = 0"
  by (simp add: roundR_def)

lemma roundR_nonneg: "0 \<le> x \<Longrightarrow> 0 \<le> roundR x"
proof -
  assume "0 \<le> x"
  then have "of_int 0 \<le> x / ulpD x" using ulpD_pos [of x] by simp
  then have "0 \<le> rne (x / ulpD x)" by (rule rne_ge_int)
  then show ?thesis unfolding roundR_def using ulpD_pos [of x] by simp
qed

lemma expoD_mono:
  assumes "0 < x" "x \<le> y"
  shows "expoD x \<le> expoD y"
proof -
  have "log 2 x \<le> log 2 y" using assms by simp
  then have "\<lfloor>log 2 \<bar>x\<bar>\<rfloor> \<le> \<lfloor>log 2 \<bar>y\<bar>\<rfloor>" using assms by (simp add: floor_mono)
  then show ?thesis unfolding expoD_def by linarith
qed

lemma below_next_binade:
  assumes "0 < x"
  shows "x < 2 powr (of_int (expoD x) + 1)"
proof -
  have "log 2 x < of_int \<lfloor>log 2 x\<rfloor> + 1" by linarith
  also have "\<dots> \<le> of_int (expoD x) + 1" using assms by (simp add: expoD_def)
  finally show ?thesis using assms by (simp add: less_powr_iff)
qed

lemma above_binade:
  assumes "0 < x" "- 1022 < expoD x"
  shows "2 powr (of_int (expoD x)) \<le> x"
proof -
  from assms have e: "expoD x = \<lfloor>log 2 x\<rfloor>" by (auto simp: expoD_def max_def split: if_splits)
  have "of_int \<lfloor>log 2 x\<rfloor> \<le> log 2 x" by linarith
  then show ?thesis unfolding e using assms(1) by (simp add: powr_le_iff)
qed

lemma roundR_le_next:
  assumes "0 < x"
  shows "roundR x \<le> 2 powr (of_int (expoD x) + 1)"
proof -
  have "x / ulpD x \<le> 2 powr 53"
  proof -
    have "x \<le> 2 powr (of_int (expoD x) + 1)" using below_next_binade [OF assms] by simp
    also have "\<dots> = 2 powr 53 * ulpD x"
      unfolding ulpD_def by (rule pow_split53)
    finally show ?thesis using ulpD_pos [of x] by (simp add: field_simps)
  qed
  then have "x / ulpD x \<le> of_int (2 ^ 53)" by simp
  then have "rne (x / ulpD x) \<le> 2 ^ 53" by (rule rne_le_int)
  then have "of_int (rne (x / ulpD x)) \<le> (2 powr 53 :: real)"
    by (metis of_int_le_iff of_int_numeral of_int_power powr_numeral zero_le_numeral)
  then have "roundR x \<le> ulpD x * 2 powr 53"
    unfolding roundR_def using ulpD_pos [of x] by simp
  also have "\<dots> = 2 powr (of_int (expoD x) + 1)"
    unfolding ulpD_def pow_split53 [of "of_int (expoD x)"] by (simp only: mult.commute)
  finally show ?thesis .
qed

lemma roundR_ge_binade:
  assumes "0 < x" "- 1022 < expoD x"
  shows "2 powr (of_int (expoD x)) \<le> roundR x"
proof -
  have "2 powr 52 \<le> x / ulpD x"
  proof -
    have "2 powr 52 * ulpD x = 2 powr (of_int (expoD x))"
      unfolding ulpD_def by (rule pow_split52 [symmetric])
    also have "\<dots> \<le> x" by (rule above_binade [OF assms])
    finally show ?thesis using ulpD_pos [of x] by (simp add: field_simps)
  qed
  then have "of_int (2 ^ 52) \<le> x / ulpD x" by simp
  then have "2 ^ 52 \<le> rne (x / ulpD x)" by (rule rne_ge_int)
  then have "(2 powr 52 :: real) \<le> of_int (rne (x / ulpD x))"
    by (metis of_int_le_iff of_int_numeral of_int_power powr_numeral zero_le_numeral)
  then have "ulpD x * 2 powr 52 \<le> roundR x"
    unfolding roundR_def using ulpD_pos [of x] by simp
  moreover have "ulpD x * 2 powr 52 = 2 powr (of_int (expoD x))"
    unfolding ulpD_def pow_split52 [of "of_int (expoD x)"] by (simp only: mult.commute)
  ultimately show ?thesis by simp
qed

lemma roundR_mono_pos:
  assumes "0 < x" "x \<le> y"
  shows "roundR x \<le> roundR y"
proof (cases "expoD x = expoD y")
  case True
  then have u: "ulpD x = ulpD y" by (simp add: ulpD_def)
  have "x / ulpD y \<le> y / ulpD y" using assms ulpD_pos [of y] by (simp add: divide_right_mono)
  then have "rne (x / ulpD y) \<le> rne (y / ulpD y)" by (rule rne_mono)
  then show ?thesis unfolding roundR_def u using ulpD_pos [of y] by simp
next
  case False
  with expoD_mono [OF assms] have lt: "expoD x < expoD y" by simp
  have y: "0 < y" using assms by simp
  have ey: "- 1022 < expoD y" using lt by (simp add: expoD_def)
  have "roundR x \<le> 2 powr (of_int (expoD x) + 1)" by (rule roundR_le_next [OF assms(1)])
  also have "\<dots> \<le> 2 powr (of_int (expoD y))" using lt by simp
  also have "\<dots> \<le> roundR y" by (rule roundR_ge_binade [OF y ey])
  finally show ?thesis .
qed

lemma roundR_mono:
  assumes "x \<le> y"
  shows "roundR x \<le> roundR y"
proof -
  consider "0 < x" | "x \<le> 0" "0 \<le> y" | "y < 0" by linarith
  then show ?thesis
  proof cases
    case 1
    then show ?thesis using assms by (rule roundR_mono_pos)
  next
    case 2
    have "roundR x = - roundR (- x)" by (simp add: roundR_minus)
    moreover have "0 \<le> roundR (- x)" using 2 by (intro roundR_nonneg) simp
    moreover have "0 \<le> roundR y" using 2 by (intro roundR_nonneg)
    ultimately show ?thesis by linarith
  next
    case 3
    then have "roundR (- y) \<le> roundR (- x)" using assms by (intro roundR_mono_pos) simp_all
    then show ?thesis by (simp add: roundR_minus)
  qed
qed

lemma roundR_error: "\<bar>roundR x - x\<bar> \<le> ulpD x / 2"
proof -
  have "roundR x - x = ulpD x * (of_int (rne (x / ulpD x)) - x / ulpD x)"
    unfolding roundR_def using ulpD_pos [of x] by (simp add: right_diff_distrib)
  then have "\<bar>roundR x - x\<bar> = ulpD x * \<bar>of_int (rne (x / ulpD x)) - x / ulpD x\<bar>"
    using ulpD_pos [of x] by (simp add: abs_mult)
  also have "\<dots> \<le> ulpD x * (1 / 2)"
    using rne_error [of "x / ulpD x"] ulpD_pos [of x] by (intro mult_left_mono) simp_all
  finally show ?thesis by simp
qed

lemma expoD_eq:
  assumes "2 powr (of_int e) \<le> \<bar>x\<bar>" "\<bar>x\<bar> < 2 powr (of_int e + 1)" "- 1022 \<le> e"
  shows "expoD x = e"
proof -
  have "0 < \<bar>x\<bar>" using assms(1) powr_gt_zero [of 2 "of_int e"] by linarith
  then have "\<lfloor>log 2 \<bar>x\<bar>\<rfloor> = e" using assms by (simp add: floor_log_eq_powr_iff)
  then show ?thesis using assms(3) by (simp add: expoD_def)
qed

lemma roundR_exact:
  assumes e: "2 powr (of_int e) \<le> \<bar>x\<bar>" "\<bar>x\<bar> < 2 powr (of_int e + 1)" "- 1022 \<le> e"
    and m: "x = of_int m * 2 powr (of_int e - 52)"
  shows "roundR x = x"
proof -
  have u: "ulpD x = 2 powr (of_int e - 52)" unfolding ulpD_def expoD_eq [OF e] ..
  have "x / ulpD x = x / 2 powr (of_int e - 52)" by (simp only: u)
  also have "\<dots> = of_int m" unfolding m by simp
  finally have q: "x / ulpD x = of_int m" .
  have "roundR x = ulpD x * of_int m" unfolding roundR_def q by simp
  also have "\<dots> = 2 powr (of_int e - 52) * of_int m" by (simp only: u)
  also have "\<dots> = x" using m by simp
  finally show ?thesis .
qed

lemma roundR_pow2:
  assumes "- 1022 \<le> e"
  shows "roundR (2 powr (of_int e)) = 2 powr (of_int e)"
proof (rule roundR_exact [where e = e and m = "2 ^ 52"])
  show "2 powr (of_int e) \<le> \<bar>2 powr (of_int e) :: real\<bar>" by simp
  show "\<bar>2 powr (of_int e) :: real\<bar> < 2 powr (of_int e + 1)" by simp
  show "- 1022 \<le> e" by fact
  show "(2::real) powr (of_int e) = of_int (2 ^ 52) * 2 powr (of_int e - 52)"
    using pow_split52 [of "of_int e"] by simp
qed

lemma roundR_one [simp]: "roundR 1 = 1"
  using roundR_pow2 [of 0] by simp

lemma roundR_two [simp]: "roundR 2 = 2"
  using roundR_pow2 [of 1] by simp

lemma roundR_half [simp]: "roundR (1 / 2) = 1 / 2"
  using roundR_pow2 [of "- 1"] by (simp add: powr_minus inverse_eq_divide)

lemma pow2_int_nat: "(2::real) powr (of_int (int n)) = 2 ^ n"
  by (simp add: powr_realpow)

lemma pow2_int_neg: "(2::real) powr (of_int (- int n)) = 1 / 2 ^ n"
  by (simp add: powr_minus powr_realpow divide_simps)

lemma roundR_pow_nat: "roundR (2 ^ n) = 2 ^ n"
  using roundR_pow2 [of "int n"] by (simp only: pow2_int_nat)

lemma roundR_inv_pow_nat: "n \<le> 1022 \<Longrightarrow> roundR (1 / 2 ^ n) = 1 / 2 ^ n"
proof -
  assume "n \<le> 1022"
  then have "- 1022 \<le> - int n" by simp
  from roundR_pow2 [OF this] show ?thesis by (simp only: pow2_int_neg)
qed

lemma roundR_between:
  assumes "a \<le> x" "x \<le> b" "roundR a = a" "roundR b = b"
  shows "a \<le> roundR x" "roundR x \<le> b"
  using roundR_mono [OF assms(1)] roundR_mono [OF assms(2)] assms(3,4) by simp_all

lemma roundR_abs_le:
  assumes "\<bar>x\<bar> \<le> b" "roundR b = b"
  shows "\<bar>roundR x\<bar> \<le> b"
proof -
  have "- b \<le> x" "x \<le> b" using assms(1) by simp_all
  moreover have "roundR (- b) = - b" using assms(2) by (simp add: roundR_minus)
  ultimately have "- b \<le> roundR x" "roundR x \<le> b"
    using roundR_between [of "- b" x b] assms(2) roundR_between [of "-b" x b] by simp_all
  then show ?thesis by simp
qed

lemma maxDouble_ge: "2 ^ 1023 \<le> maxDouble"
  unfolding maxDouble_def by simp

lemma maxDouble_lt: "maxDouble < 2 ^ 1024"
  unfolding maxDouble_def by simp

lemma roundD_finite: "\<bar>roundR x\<bar> \<le> maxDouble \<Longrightarrow> roundD x = Fin (roundR x)"
  unfolding roundD_def by simp

lemma pow_le_max: "n \<le> 1023 \<Longrightarrow> (2::real) ^ n \<le> maxDouble"
proof -
  assume "n \<le> 1023"
  then have "(2::real) ^ n \<le> 2 ^ 1023" by (intro power_increasing) simp_all
  then show ?thesis using maxDouble_ge by linarith
qed

lemma roundD_abs_pow:
  assumes "\<bar>x\<bar> \<le> 2 ^ n" "n \<le> 1023"
  shows "roundD x = Fin (roundR x)" "\<bar>roundR x\<bar> \<le> 2 ^ n"
proof -
  show b: "\<bar>roundR x\<bar> \<le> 2 ^ n" using roundR_abs_le [OF assms(1) roundR_pow_nat] .
  show "roundD x = Fin (roundR x)"
    using b pow_le_max [OF assms(2)] by (intro roundD_finite) linarith
qed

lemma roundD_overflow:
  assumes "2 ^ 1024 \<le> x"
  shows "roundD x = PosInf"
proof -
  have "roundR (2 ^ 1024) \<le> roundR x" using assms by (rule roundR_mono)
  then have "2 ^ 1024 \<le> roundR x" by (simp only: roundR_pow_nat)
  then have "maxDouble < \<bar>roundR x\<bar>" using maxDouble_lt by linarith
  moreover have "(0::real) < 2 ^ 1024" by simp
  then have "0 < x" using assms by linarith
  ultimately show ?thesis unfolding roundD_def by simp
qed

lemma roundD_zero [simp]: "roundD 0 = Fin 0"
  unfolding roundD_def maxDouble_def by simp

lemma roundD_one [simp]: "roundD 1 = Fin 1"
  unfolding roundD_def maxDouble_def by simp

lemma roundD_range:
  assumes "a \<le> x" "x \<le> b" "roundR a = a" "roundR b = b" "- maxDouble \<le> a" "b \<le> maxDouble"
  shows "roundD x = Fin (roundR x)" "a \<le> roundR x" "roundR x \<le> b"
proof -
  show 1: "a \<le> roundR x" "roundR x \<le> b"
    using roundR_between [OF assms(1-4)] by simp_all
  show "roundD x = Fin (roundR x)"
    using 1 assms(5,6) by (intro roundD_finite) linarith
qed

lemma expoD_le_one: assumes "\<bar>x\<bar> \<le> 2" shows "expoD x \<le> 1"
proof (cases "x = 0")
  case True then show ?thesis by (simp add: expoD_def log_def)
next
  case False
  then have "log 2 \<bar>x\<bar> \<le> log 2 2" using assms by (subst log_le_cancel_iff) simp_all
  then have "\<lfloor>log 2 \<bar>x\<bar>\<rfloor> \<le> 1" by (simp add: floor_le_iff)
  then show ?thesis by (simp add: expoD_def)
qed

lemma roundR_error_small:
  assumes "\<bar>x\<bar> \<le> 2"
  shows "\<bar>roundR x - x\<bar> \<le> 1 / 2 ^ 52"
proof -
  have "of_int (expoD x) - 52 \<le> (- 51 :: real)" using expoD_le_one [OF assms] by simp
  then have "ulpD x \<le> 2 powr (- 51)" unfolding ulpD_def by (intro powr_mono) simp_all
  also have "(2::real) powr (- 51) = 1 / 2 ^ 51" by (simp add: powr_minus powr_numeral divide_simps)
  finally have "ulpD x / 2 \<le> 1 / 2 ^ 52" by simp
  then show ?thesis using roundR_error [of x] by linarith
qed

lemma roundR_three [simp]: "roundR 3 = 3"
proof (rule roundR_exact [where e = 1 and m = "3 * 2 ^ 51"])
  show "2 powr (of_int 1) \<le> \<bar>3 :: real\<bar>" by simp
  show "\<bar>3 :: real\<bar> < 2 powr (of_int 1 + 1)" by simp
  show "- 1022 \<le> (1::int)" by simp
  show "(3::real) = of_int (3 * 2 ^ 51) * 2 powr (of_int 1 - 52)"
    by (simp add: powr_minus powr_numeral divide_simps)
qed

lemma roundR_four [simp]: "roundR 4 = 4"
  using roundR_pow_nat [of 2] by simp

lemma roundR_eighth [simp]: "roundR (1 / 8) = 1 / 8"
  using roundR_inv_pow_nat [of 3] by simp

lemma roundR_quarter [simp]: "roundR (1 / 4) = 1 / 4"
  using roundR_inv_pow_nat [of 2] by simp

lemma maxDouble_big: "4 \<le> maxDouble"
  using pow_le_max [of 2] by simp

lemma dplus_Fin: "Double (Fin a) + Double (Fin b) = Double (roundD (a + b))"
  by (simp add: plus_double_def)

lemma dminus_Fin: "Double (Fin a) - Double (Fin b) = Double (roundD (a - b))"
  by (simp add: minus_double_def minus_jsnum_def)

lemma dtimes_Fin: "Double (Fin a) * Double (Fin b) = Double (roundD (a * b))"
  by (simp add: times_double_def)

lemma ddivide_Fin: "b \<noteq> 0 \<Longrightarrow> Double (Fin a) / Double (Fin b) = Double (roundD (a / b))"
  by (simp add: divide_double_def)

text \<open>Values in [-2,2]: finite result, error at most 2^-52.\<close>

lemma roundD_small:
  assumes "\<bar>x\<bar> \<le> 2"
  shows "roundD x = Fin (roundR x)" "\<bar>roundR x - x\<bar> \<le> 1 / 2 ^ 52" "\<bar>roundR x\<bar> \<le> 2"
proof -
  show "roundD x = Fin (roundR x)" using roundD_abs_pow [of x 1] assms by simp
  show "\<bar>roundR x - x\<bar> \<le> 1 / 2 ^ 52" by (rule roundR_error_small [OF assms])
  show "\<bar>roundR x\<bar> \<le> 2" using roundD_abs_pow [of x 1] assms by simp
qed

lemma u_small: "(1::real) / 2 ^ 52 \<le> 1 / 1000000000000000"
  by simp

lemma massPoleD_val: "\<exists>a. massPoleD = Double (Fin a) \<and> \<bar>a - 1 / 10\<bar> \<le> 1 / 2 ^ 52"
  unfolding massPoleD_def lit_def using roundD_small [of "1 / 10"] by simp

lemma massCartD_val: "massCartD = Double (Fin 1)"
  unfolding massCartD_def lit_def by simp

lemma lengthD_val: "lengthD = Double (Fin (1 / 2))"
  unfolding lengthD_def lit_def using roundD_small [of "1 / 2"] by simp

lemma totalMassD_val: "\<exists>t. totalMassD = Double (Fin t) \<and> \<bar>t - 11 / 10\<bar> \<le> 2 / 2 ^ 52"
proof -
  obtain a where a: "massPoleD = Double (Fin a)" "\<bar>a - 1 / 10\<bar> \<le> 1 / 2 ^ 52"
    using massPoleD_val by blast
  have s: "\<bar>1 + a\<bar> \<le> 2" using a(2) u_small by linarith
  have "totalMassD = Double (Fin (roundR (1 + a)))"
    unfolding totalMassD_def massCartD_val a(1) dplus_Fin using roundD_small(1) [OF s] by simp
  moreover have "\<bar>roundR (1 + a) - 11 / 10\<bar> \<le> 2 / 2 ^ 52"
    using roundD_small(2) [OF s] a(2) by linarith
  ultimately show ?thesis by blast
qed

lemma fourThirds_val: "\<exists>f. lit 4 / lit 3 = Double (Fin f) \<and> \<bar>f - 4 / 3\<bar> \<le> 1 / 2 ^ 52"
proof -
  have 4: "lit 4 = Double (Fin 4)" unfolding lit_def using roundD_finite [of 4] maxDouble_big by simp
  have 3: "lit 3 = Double (Fin 3)" unfolding lit_def using roundD_finite [of 3] maxDouble_big by simp
  have s: "\<bar>4 / 3 :: real\<bar> \<le> 2" by simp
  have "lit 4 / lit 3 = Double (Fin (roundR (4 / 3)))"
    unfolding 4 3 using ddivide_Fin [of 3 4] roundD_small(1) [OF s] by simp
  then show ?thesis using roundD_small(2) [OF s] by blast
qed

lemma roundR_same_ulp:
  assumes "ulpD y = ulpD x" "y = ulpD x * of_int n"
  shows "roundR y = y"
proof -
  have "y / ulpD y = of_int n" using assms ulpD_pos [of x] by simp
  then have "roundR y = ulpD y * of_int n" unfolding roundR_def by simp
  then show ?thesis using assms by simp
qed

lemma expoD_low:
  assumes "\<bar>y\<bar> < 2 powr (- 1021)" "y \<noteq> 0"
  shows "expoD y = - 1022"
proof -
  have "log 2 \<bar>y\<bar> < log 2 (2 powr (- 1021))" using assms by (subst log_less_cancel_iff) simp_all
  then have "log 2 \<bar>y\<bar> < - 1021" by simp
  then have "\<lfloor>log 2 \<bar>y\<bar>\<rfloor> < - 1021" by (simp add: floor_less_iff)
  then show ?thesis by (simp add: expoD_def)
qed

lemma expoD_ge: "- 1022 \<le> expoD x"
  by (simp add: expoD_def)

lemma roundR_idem_pos:
  assumes "0 < x"
  shows "roundR (roundR x) = roundR x"
proof -
  define e where "e = expoD x"
  define y where "y = roundR x"
  have y0: "0 \<le> y" unfolding y_def using assms by (intro roundR_nonneg) simp
  have yle: "y \<le> 2 powr (of_int e + 1)" unfolding y_def e_def by (rule roundR_le_next [OF assms])
  consider "y = 0" | "y = 2 powr (of_int e + 1)" | "0 < y" "y < 2 powr (of_int e + 1)"
    using y0 yle by linarith
  then have "roundR y = y"
  proof cases
    case 1
    then show ?thesis by simp
  next
    case 2
    have "- 1022 \<le> e + 1" using expoD_ge [of x] unfolding e_def by simp
    from roundR_pow2 [OF this] show ?thesis unfolding 2 by simp
  next
    case 3
    have "expoD y = e"
    proof (cases "- 1022 < e")
      case True
      then have "2 powr (of_int e) \<le> y" unfolding y_def e_def using roundR_ge_binade [OF assms] by simp
      then show ?thesis using 3 True by (intro expoD_eq) simp_all
    next
      case False
      then have e: "e = - 1022" using expoD_ge [of x] unfolding e_def by simp
      have "\<bar>y\<bar> < 2 powr (- 1021)" using 3 unfolding e by simp
      moreover have "y \<noteq> 0" using 3 by simp
      ultimately show ?thesis unfolding e by (rule expoD_low)
    qed
    then have "ulpD y = ulpD x" unfolding ulpD_def e_def by simp
    moreover have "y = ulpD x * of_int (rne (x / ulpD x))" unfolding y_def roundR_def ..
    ultimately show ?thesis by (rule roundR_same_ulp)
  qed
  then show ?thesis unfolding y_def .
qed

lemma roundR_idem [simp]: "roundR (roundR x) = roundR x"
proof -
  consider "x = 0" | "0 < x" | "0 < - x" by linarith
  then show ?thesis
  proof cases
    case 1 then show ?thesis by simp
  next
    case 2 then show ?thesis by (rule roundR_idem_pos)
  next
    case 3
    from roundR_idem_pos [OF this] show ?thesis by (simp add: roundR_minus)
  qed
qed

lemma roundD_idem: "roundD x = Fin r \<Longrightarrow> roundD r = Fin r"
  unfolding roundD_def by (auto split: if_splits bool.splits elim: infOfSign.elims)

lemma rne_near:
  assumes "of_int n \<le> y" "y < of_int n + 1 / 2"
  shows "rne y = n"
proof -
  have "\<lfloor>y\<rfloor> = n" using assms by (intro floor_unique) simp_all
  then show ?thesis using assms unfolding rne_def Let_def by simp
qed

lemma roundR_one_plus:
  assumes "0 \<le> e" "e \<le> 1 / 2 ^ 54"
  shows "roundR (1 + e) = 1"
proof -
  have b: "e \<le> 1 / 4" using assms(2) by (rule order_trans) simp
  have "expoD (1 + e) = 0" using assms(1) b by (intro expoD_eq) simp_all
  then have u: "ulpD (1 + e) = 1 / 2 ^ 52"
    unfolding ulpD_def by (simp add: powr_minus powr_numeral divide_simps)
  have q: "(1 + e) / ulpD (1 + e) = of_int (2 ^ 52) + e * 2 ^ 52" unfolding u by (simp add: algebra_simps)
  have "e * 2 ^ 52 \<le> 1 / 2 ^ 54 * 2 ^ 52" using assms(2) by (intro mult_right_mono) simp_all
  then have s: "e * 2 ^ 52 \<le> 1 / 4" by simp
  have "rne ((1 + e) / ulpD (1 + e)) = 2 ^ 52"
    unfolding q using assms(1) s by (intro rne_near) simp_all
  then show ?thesis unfolding roundR_def u by simp
qed

lemma exp_le_pow2: assumes "x \<le> - real n" shows "exp x \<le> 1 / 2 ^ n"
proof -
  have "(2::real) \<le> exp 1" using exp_ge_add_one_self [of 1] by simp
  then have "(2::real) ^ n \<le> exp 1 ^ n" by (intro power_mono) simp_all
  also have "\<dots> = exp (real n)" using exp_of_nat_mult [of n "1::real"] by simp
  finally have "2 ^ n \<le> exp (real n)" .
  then have "1 / exp (real n) \<le> 1 / 2 ^ n" by (intro divide_left_mono) simp_all
  moreover have "exp x \<le> exp (- real n)" using assms by simp
  ultimately show ?thesis by (simp add: exp_minus inverse_eq_divide)
qed

section \<open>The correctly rounded library\<close>

text \<open>
  The library \<open>correctlyRounded\<close> has the properties that the general results assume.
\<close>

lemma expInUnit_correctlyRounded: "expInUnit (mexp correctlyRounded)"
proof -
  have "\<exists>e. roundedFn exp PosInf (Fin 0) (Double (Fin x)) = Double (Fin e) \<and> 0 \<le> e \<and> e \<le> 1"
    if "x < 0" for x :: real
  proof -
    have b: "0 \<le> exp x" "exp x \<le> 1" using that by simp_all
    have m: "- maxDouble \<le> 0" "1 \<le> maxDouble" using maxDouble_big by linarith+
    note R = roundD_range [OF b roundR_zero roundR_one m]
    show ?thesis unfolding roundedFn_def using R by simp
  qed
  then show ?thesis
    unfolding expInUnit_def by (simp add: correctlyRounded_def) (simp add: roundedFn_def)
qed

lemma roundedFn_inUnit:
  assumes "\<And>x. \<bar>f x\<bar> \<le> 1"
  shows "inUnit (roundedFn f p n)"
proof -
  have "\<exists>c. roundedFn f p n (Double (Fin x)) = Double (Fin c) \<and> \<bar>c\<bar> \<le> 1" for x :: real
  proof -
    have "\<bar>f x\<bar> \<le> 2 ^ 0" using assms [of x] by simp
    from roundD_abs_pow [OF this] show ?thesis unfolding roundedFn_def by simp
  qed
  then show ?thesis unfolding inUnit_def by blast
qed

lemma inUnit_correctlyRounded:
  "inUnit (mcos correctlyRounded)" "inUnit (msin correctlyRounded)"
  "inUnit (mtanh correctlyRounded)"
proof -
  have t: "\<bar>tanh x\<bar> \<le> 1" for x :: real
    using tanh_real_lt_1 [of x] tanh_real_gt_neg1 [of x] by linarith
  show "inUnit (mcos correctlyRounded)" "inUnit (msin correctlyRounded)"
    "inUnit (mtanh correctlyRounded)"
    unfolding correctlyRounded_def by (simp_all add: roundedFn_inUnit t)
qed

lemma correctlyRounded_at_zero:
  "mcos correctlyRounded (Double (Fin 0)) = Double (Fin 1)"
  "msin correctlyRounded (Double (Fin 0)) = Double (Fin 0)"
  by (simp_all add: correctlyRounded_def roundedFn_def)

lemma mtanh_zero: "mtanh correctlyRounded (Double (Fin 0)) = Double (Fin 0)"
  by (simp add: correctlyRounded_def roundedFn_def)

lemma mtanh_NaN: "mtanh correctlyRounded (Double NaN) = Double NaN"
  by (simp add: correctlyRounded_def roundedFn_def)

lemma mexp_NaN: "mexp correctlyRounded (Double NaN) = Double NaN"
  by (simp add: correctlyRounded_def roundedFn_def)

lemma mexp_zero: "mexp correctlyRounded (Double (Fin 0)) = Double (Fin 1)"
  by (simp add: correctlyRounded_def roundedFn_def)

section \<open>Doubles of bounded magnitude\<close>

lemma withinI: "\<bar>r\<bar> \<le> 2 ^ k \<Longrightarrow> magBelow k (Double (Fin r))"
  unfolding magBelow_def by blast

lemma magBelow_round:
  assumes "\<bar>x\<bar> \<le> 2 ^ n" "n \<le> 1023"
  shows "magBelow n (Double (roundD x))"
  using roundD_abs_pow [OF assms] unfolding magBelow_def by simp

lemma magBelow_mono: "magBelow j a \<Longrightarrow> j \<le> k \<Longrightarrow> magBelow k a"
proof -
  assume a: "magBelow j a" and jk: "j \<le> k"
  obtain r where r: "a = Double (Fin r)" "\<bar>r\<bar> \<le> 2 ^ j" using a unfolding magBelow_def by blast
  have "(2::real) ^ j \<le> 2 ^ k" using jk by (intro power_increasing) simp_all
  then have "\<bar>r\<bar> \<le> 2 ^ k" using r(2) by linarith
  then show ?thesis unfolding magBelow_def using r(1) by blast
qed

lemma magBelow_lit: "\<bar>x\<bar> \<le> 2 ^ n \<Longrightarrow> n \<le> 1023 \<Longrightarrow> magBelow n (lit x)"
  unfolding lit_def by (rule magBelow_round)

lemma pow_sum_le:
  fixes x y :: real
  assumes "\<bar>x\<bar> \<le> 2 ^ j" "\<bar>y\<bar> \<le> 2 ^ k" "j < n" "k < n"
  shows "\<bar>x\<bar> + \<bar>y\<bar> \<le> 2 ^ n"
proof -
  obtain n' where n: "n = Suc n'" using assms(3) by (cases n) simp_all
  have "(2::real) ^ j \<le> 2 ^ n'" "(2::real) ^ k \<le> 2 ^ n'"
    using assms(3,4) unfolding n by (simp_all add: power_increasing)
  moreover have "(2::real) ^ n = 2 ^ n' + 2 ^ n'" unfolding n by simp
  ultimately show ?thesis using assms(1,2) by linarith
qed

lemma magBelow_plus:
  assumes "magBelow j a" "magBelow k b" "j < n" "k < n" "n \<le> 1023"
  shows "magBelow n (a + b)"
proof -
  obtain x where x: "a = Double (Fin x)" "\<bar>x\<bar> \<le> 2 ^ j" using assms(1) unfolding magBelow_def by blast
  obtain y where y: "b = Double (Fin y)" "\<bar>y\<bar> \<le> 2 ^ k" using assms(2) unfolding magBelow_def by blast
  have "\<bar>x + y\<bar> \<le> 2 ^ n" using pow_sum_le [OF x(2) y(2) assms(3,4)] by linarith
  then show ?thesis unfolding x(1) y(1) dplus_Fin using assms(5) by (rule magBelow_round)
qed

lemma magBelow_minus:
  assumes "magBelow j a" "magBelow k b" "j < n" "k < n" "n \<le> 1023"
  shows "magBelow n (a - b)"
proof -
  obtain x where x: "a = Double (Fin x)" "\<bar>x\<bar> \<le> 2 ^ j" using assms(1) unfolding magBelow_def by blast
  obtain y where y: "b = Double (Fin y)" "\<bar>y\<bar> \<le> 2 ^ k" using assms(2) unfolding magBelow_def by blast
  have "\<bar>x - y\<bar> \<le> 2 ^ n" using pow_sum_le [OF x(2) y(2) assms(3,4)] by linarith
  then show ?thesis unfolding x(1) y(1) dminus_Fin using assms(5) by (rule magBelow_round)
qed

lemma magBelow_times:
  assumes "magBelow j a" "magBelow k b" "j + k \<le> n" "n \<le> 1023"
  shows "magBelow n (a * b)"
proof -
  obtain x where x: "a = Double (Fin x)" "\<bar>x\<bar> \<le> 2 ^ j" using assms(1) unfolding magBelow_def by blast
  obtain y where y: "b = Double (Fin y)" "\<bar>y\<bar> \<le> 2 ^ k" using assms(2) unfolding magBelow_def by blast
  have "\<bar>x * y\<bar> = \<bar>x\<bar> * \<bar>y\<bar>" by (rule abs_mult)
  also have "\<dots> \<le> 2 ^ j * 2 ^ k" using x(2) y(2) by (intro mult_mono) simp_all
  also have "\<dots> = 2 ^ (j + k)" by (simp add: power_add)
  also have "\<dots> \<le> 2 ^ n" using assms(3) by (intro power_increasing) simp_all
  finally show ?thesis unfolding x(1) y(1) dtimes_Fin using assms(4) by (rule magBelow_round)
qed

lemma magBelow_divide:
  assumes "magBelow j a" "b = Double (Fin y)" "1 / 2 \<le> y" "j < n" "n \<le> 1023"
  shows "magBelow n (a / b)"
proof -
  obtain x where x: "a = Double (Fin x)" "\<bar>x\<bar> \<le> 2 ^ j" using assms(1) unfolding magBelow_def by blast
  obtain n' where n: "n = Suc n'" using assms(4) by (cases n) simp_all
  have y: "0 < y" "y \<noteq> 0" using assms(3) by linarith+
  have "\<bar>x / y\<bar> = \<bar>x\<bar> / y" using y by simp
  also have "\<dots> \<le> \<bar>x\<bar> / (1 / 2)" using assms(3) by (intro divide_left_mono) simp_all
  also have "\<dots> \<le> 2 * 2 ^ j" using x(2) by simp
  finally have "\<bar>x / y\<bar> \<le> 2 * 2 ^ j" .
  moreover have "(2::real) ^ j \<le> 2 ^ n'" using assms(4) unfolding n by (simp add: power_increasing)
  moreover have "(2::real) ^ n = 2 * 2 ^ n'" unfolding n by simp
  ultimately have "\<bar>x / y\<bar> \<le> 2 ^ n" by linarith
  then show ?thesis
    unfolding x(1) assms(2) ddivide_Fin [OF y(2)] using assms(5) by (rule magBelow_round)
qed

lemma magBelow_inUnit:
  assumes "inUnit f" "magBelow k d"
  shows "magBelow 0 (f d)"
proof -
  obtain x where x: "d = Double (Fin x)" using assms(2) unfolding magBelow_def by blast
  obtain c where "f (Double (Fin x)) = Double (Fin c)" "\<bar>c\<bar> \<le> 1"
    using assms(1) unfolding inUnit_def by blast
  then show ?thesis unfolding x magBelow_def by simp
qed

lemma magBelow_finite: "magBelow k d \<Longrightarrow> isFiniteD d"
  unfolding magBelow_def isFiniteD_def by auto

section \<open>Physics in double arithmetic\<close>

lemma thetaAccDenomD_lower:
  assumes c: "\<bar>c\<bar> \<le> 1"
  shows "\<exists>d. thetaAccDenomD (Double (Fin c)) = Double (Fin d) \<and> 62 / 100 \<le> d \<and> d \<le> 1"
proof -
  define u :: real where "u = 1 / 2 ^ 52"
  have u: "0 \<le> u" "u \<le> 1 / 1000000000000000" unfolding u_def using u_small by simp_all
  obtain a where a: "massPoleD = Double (Fin a)" "\<bar>a - 1 / 10\<bar> \<le> u"
    using massPoleD_val unfolding u_def by blast
  obtain t where t: "totalMassD = Double (Fin t)" "\<bar>t - 11 / 10\<bar> \<le> 2 / 2 ^ 52"
    using totalMassD_val by blast
  have t2: "\<bar>t - 11 / 10\<bar> \<le> 2 * u" using t(2) unfolding u_def by simp
  obtain f where f: "lit 4 / lit 3 = Double (Fin f)" "\<bar>f - 4 / 3\<bar> \<le> u"
    using fourThirds_val unfolding u_def by blast
  have tpos: "0 < t" "t \<noteq> 0" using t2 u by linarith+
  define r1 where "r1 = roundR (a * c)"
  define r2 where "r2 = roundR (r1 * c)"
  define q where "q = roundR (r2 / t)"
  define d where "d = roundR (f - q)"
  define res where "res = roundR (1 / 2 * d)"
  have ac: "\<bar>a * c\<bar> \<le> 1 / 10 + u"
  proof -
    have "\<bar>a * c\<bar> = \<bar>a\<bar> * \<bar>c\<bar>" by (rule abs_mult)
    also have "\<dots> \<le> \<bar>a\<bar> * 1" using c by (intro mult_left_mono) simp_all
    finally show ?thesis using a(2) by linarith
  qed
  then have s1: "\<bar>a * c\<bar> \<le> 2" using u by linarith
  have e1: "massPoleD * Double (Fin c) = Double (Fin r1)"
    unfolding a(1) dtimes_Fin r1_def using roundD_small(1) [OF s1] by simp
  have b1: "\<bar>r1\<bar> \<le> 1 / 10 + 2 * u"
    using roundD_small(2) [OF s1] ac unfolding r1_def u_def by linarith
  have rc: "\<bar>r1 * c\<bar> \<le> 1 / 10 + 2 * u"
  proof -
    have "\<bar>r1 * c\<bar> = \<bar>r1\<bar> * \<bar>c\<bar>" by (rule abs_mult)
    also have "\<dots> \<le> \<bar>r1\<bar> * 1" using c by (intro mult_left_mono) simp_all
    finally show ?thesis using b1 by linarith
  qed
  then have s2: "\<bar>r1 * c\<bar> \<le> 2" using u by linarith
  have e2: "Double (Fin r1) * Double (Fin c) = Double (Fin r2)"
    unfolding dtimes_Fin r2_def using roundD_small(1) [OF s2] by simp
  have b2: "\<bar>r2\<bar> \<le> 1 / 10 + 3 * u"
    using roundD_small(2) [OF s2] rc unfolding r2_def u_def by linarith
  have qb: "\<bar>r2 / t\<bar> \<le> 91 / 1000"
  proof -
    have "\<bar>r2\<bar> \<le> 91 / 1000 * t" using b2 t2 u by linarith
    then have "\<bar>r2\<bar> / t \<le> 91 / 1000" using tpos by (simp add: pos_divide_le_eq)
    then show ?thesis using tpos by simp
  qed
  then have s3: "\<bar>r2 / t\<bar> \<le> 2" by linarith
  have e3: "Double (Fin r2) / totalMassD = Double (Fin q)"
    unfolding t(1) q_def using ddivide_Fin [OF tpos(2), of r2] roundD_small(1) [OF s3] by simp
  have b3: "\<bar>q\<bar> \<le> 91 / 1000 + u"
    using roundD_small(2) [OF s3] qb unfolding q_def u_def by linarith
  have fq: "12423 / 10000 \<le> f - q" "f - q \<le> 15 / 10" using f(2) b3 u by linarith+
  then have s4: "\<bar>f - q\<bar> \<le> 2" by linarith
  have e4: "Double (Fin f) - Double (Fin q) = Double (Fin d)"
    unfolding dminus_Fin d_def using roundD_small(1) [OF s4] by simp
  have b4: "12422 / 10000 \<le> d" "d \<le> 16 / 10"
    using roundD_small(2) [OF s4] fq u unfolding d_def u_def by linarith+
  then have s5: "\<bar>1 / 2 * d\<bar> \<le> 2" by linarith
  have e5: "lengthD * Double (Fin d) = Double (Fin res)"
    unfolding lengthD_val dtimes_Fin res_def using roundD_small(1) [OF s5] by simp
  have b5: "62 / 100 \<le> res" "res \<le> 1"
    using roundD_small(2) [OF s5] b4 u unfolding res_def u_def by linarith+
  have "thetaAccDenomD (Double (Fin c)) = Double (Fin res)"
    unfolding thetaAccDenomD_def e1 e2 e3 f(1) e4 e5 ..
  then show ?thesis using b5 by blast
qed

lemma actionValue_abs: "\<bar>actionValue a\<bar> \<le> 2 ^ 0"
  by (cases a) simp_all

lemma physics_constants:
  "magBelow 0 massPoleD" "magBelow 0 lengthD" "magBelow 0 poleMassLengthD" "magBelow 4 gravityD"
  "magBelow 4 forceMagD" "magBelow 0 tauD" "magBelow 0 (lit (actionValue a))"
proof -
  show mp: "magBelow 0 massPoleD" unfolding massPoleD_def by (rule magBelow_lit) simp_all
  show ln: "magBelow 0 lengthD" unfolding lengthD_def by (rule magBelow_lit) simp_all
  show "magBelow 0 poleMassLengthD"
    unfolding poleMassLengthD_def by (rule magBelow_times [OF mp ln]) simp_all
  show "magBelow 4 gravityD" unfolding gravityD_def by (rule magBelow_lit) simp_all
  show "magBelow 4 forceMagD" unfolding forceMagD_def by (rule magBelow_lit) simp_all
  show "magBelow 0 tauD" unfolding tauD_def by (rule magBelow_lit) simp_all
  show "magBelow 0 (lit (actionValue a))"
    by (rule magBelow_lit [OF actionValue_abs]) simp
qed

lemma totalMassD_half: "\<exists>t. totalMassD = Double (Fin t) \<and> 1 / 2 \<le> t \<and> 1 \<le> t"
proof -
  obtain t where t: "totalMassD = Double (Fin t)" "\<bar>t - 11 / 10\<bar> \<le> 2 / 2 ^ 52"
    using totalMassD_val by blast
  have "(2::real) / 2 ^ 52 \<le> 1 / 1000" by simp
  then have "1 \<le> t" using t(2) by linarith
  then show ?thesis using t(1) by (intro exI [of _ t]) simp
qed

lemma thetaAccDenomD_inUnit:
  assumes "inUnit f"
  shows "\<exists>d. thetaAccDenomD (f (Double (Fin x))) = Double (Fin d) \<and> 62 / 100 \<le> d"
proof -
  obtain c where c: "f (Double (Fin x)) = Double (Fin c)" "\<bar>c\<bar> \<le> 1"
    using assms unfolding inUnit_def by blast
  show ?thesis unfolding c(1) using thetaAccDenomD_lower [OF c(2)] by blast
qed

lemma stepCartPoleD_bounded:
  assumes cs: "inUnit (mcos m)" and sn: "inUnit (msin m)"
    and st: "magBelow 100 (xPosD st)" "magBelow 100 (xDotD st)" "magBelow 100 (thetaD st)"
      "magBelow 100 (thetaDotD st)"
  shows "magBelow 101 (xPosD (fst (stepCartPoleD m st a)))"
    "magBelow 207 (xDotD (fst (stepCartPoleD m st a)))"
    "magBelow 101 (thetaD (fst (stepCartPoleD m st a)))"
    "magBelow 205 (thetaDotD (fst (stepCartPoleD m st a)))"
proof -
  note k = physics_constants
  define force where "force = lit (actionValue a) * forceMagD"
  define cosTheta where "cosTheta = mcos m (thetaD st)"
  define sinTheta where "sinTheta = msin m (thetaD st)"
  define temp where
    "temp = (force + poleMassLengthD * thetaDotD st * thetaDotD st * sinTheta) / totalMassD"
  define thetaAcc where
    "thetaAcc = (gravityD * sinTheta - cosTheta * temp) / thetaAccDenomD cosTheta"
  define xAcc where "xAcc = temp - (poleMassLengthD * thetaAcc * cosTheta) / totalMassD"
  obtain t where t: "totalMassD = Double (Fin t)" "1 / 2 \<le> t"
    using totalMassD_half by blast
  obtain th where th: "thetaD st = Double (Fin th)" using st(3) unfolding magBelow_def by blast
  obtain d where d: "thetaAccDenomD cosTheta = Double (Fin d)" "62 / 100 \<le> d"
    unfolding cosTheta_def th using thetaAccDenomD_inUnit [OF cs] by blast
  have d2: "1 / 2 \<le> d" using d(2) by linarith
  have f: "magBelow 4 force"
    unfolding force_def by (rule magBelow_times [OF k(7) k(5)]) simp_all
  have c: "magBelow 0 cosTheta" unfolding cosTheta_def by (rule magBelow_inUnit [OF cs st(3)])
  have s: "magBelow 0 sinTheta" unfolding sinTheta_def by (rule magBelow_inUnit [OF sn st(3)])
  have p1: "magBelow 100 (poleMassLengthD * thetaDotD st)"
    by (rule magBelow_times [OF k(3) st(4)]) simp_all
  have p2: "magBelow 200 (poleMassLengthD * thetaDotD st * thetaDotD st)"
    by (rule magBelow_times [OF p1 st(4)]) simp_all
  have p3: "magBelow 200 (poleMassLengthD * thetaDotD st * thetaDotD st * sinTheta)"
    by (rule magBelow_times [OF p2 s]) simp_all
  have p4: "magBelow 201 (force + poleMassLengthD * thetaDotD st * thetaDotD st * sinTheta)"
    by (rule magBelow_plus [OF f p3]) simp_all
  have tp: "magBelow 202 temp"
    unfolding temp_def by (rule magBelow_divide [OF p4 t]) simp_all
  have q1: "magBelow 4 (gravityD * sinTheta)" by (rule magBelow_times [OF k(4) s]) simp_all
  have q2: "magBelow 202 (cosTheta * temp)" by (rule magBelow_times [OF c tp]) simp_all
  have q3: "magBelow 203 (gravityD * sinTheta - cosTheta * temp)"
    by (rule magBelow_minus [OF q1 q2]) simp_all
  have ta: "magBelow 204 thetaAcc"
    unfolding thetaAcc_def by (rule magBelow_divide [OF q3 d(1) d2]) simp_all
  have r1: "magBelow 204 (poleMassLengthD * thetaAcc)"
    by (rule magBelow_times [OF k(3) ta]) simp_all
  have r2: "magBelow 204 (poleMassLengthD * thetaAcc * cosTheta)"
    by (rule magBelow_times [OF r1 c]) simp_all
  have r3: "magBelow 205 ((poleMassLengthD * thetaAcc * cosTheta) / totalMassD)"
    by (rule magBelow_divide [OF r2 t]) simp_all
  have xa: "magBelow 206 xAcc"
    unfolding xAcc_def by (rule magBelow_minus [OF tp r3]) simp_all
  have n1: "magBelow 100 (tauD * xDotD st)" by (rule magBelow_times [OF k(6) st(2)]) simp_all
  have n2: "magBelow 206 (tauD * xAcc)" by (rule magBelow_times [OF k(6) xa]) simp_all
  have n3: "magBelow 100 (tauD * thetaDotD st)" by (rule magBelow_times [OF k(6) st(4)]) simp_all
  have n4: "magBelow 204 (tauD * thetaAcc)" by (rule magBelow_times [OF k(6) ta]) simp_all
  have nx: "fst (stepCartPoleD m st a) =
      \<lparr> xPosD = xPosD st + tauD * xDotD st, xDotD = xDotD st + tauD * xAcc,
        thetaD = thetaD st + tauD * thetaDotD st, thetaDotD = thetaDotD st + tauD * thetaAcc \<rparr>"
    unfolding stepCartPoleD_def Let_def fst_conv xAcc_def thetaAcc_def temp_def force_def
      cosTheta_def sinTheta_def ..
  show "magBelow 101 (xPosD (fst (stepCartPoleD m st a)))"
    unfolding nx CartPoleStateD.select_convs by (rule magBelow_plus [OF st(1) n1]) simp_all
  show "magBelow 207 (xDotD (fst (stepCartPoleD m st a)))"
    unfolding nx CartPoleStateD.select_convs by (rule magBelow_plus [OF st(2) n2]) simp_all
  show "magBelow 101 (thetaD (fst (stepCartPoleD m st a)))"
    unfolding nx CartPoleStateD.select_convs by (rule magBelow_plus [OF st(3) n3]) simp_all
  show "magBelow 205 (thetaDotD (fst (stepCartPoleD m st a)))"
    unfolding nx CartPoleStateD.select_convs by (rule magBelow_plus [OF st(4) n4]) simp_all
qed

lemma jsnum_NaN_right [simp]:
  "x + NaN = NaN" "x - NaN = NaN" "x * NaN = NaN" "x / NaN = (NaN :: jsnum)"
  by (cases x; simp add: minus_jsnum_def)+

lemma jsnum_NaN_left [simp]:
  "NaN - x = NaN"
  by (simp add: minus_jsnum_def)

lemma double_NaN [simp]:
  "a + Double NaN = Double NaN" "Double NaN + a = Double NaN"
  "a - Double NaN = Double NaN" "Double NaN - a = Double NaN"
  "a * Double NaN = Double NaN" "Double NaN * a = Double NaN"
  "a / Double NaN = Double NaN" "Double NaN / a = Double NaN"
  by (simp_all add: plus_double_def minus_double_def times_double_def divide_double_def)

lemma poleMassLengthD_val: "\<exists>p. poleMassLengthD = Double (Fin p) \<and> 1 / 32 \<le> p \<and> p \<le> 1 / 8"
proof -
  obtain a where a: "massPoleD = Double (Fin a)" "\<bar>a - 1 / 10\<bar> \<le> 1 / 2 ^ 52"
    using massPoleD_val by blast
  have b: "1 / 32 \<le> a * (1 / 2)" "a * (1 / 2) \<le> 1 / 8" using a(2) u_small by linarith+
  have r: "roundR (1 / 32) = 1 / 32" using roundR_inv_pow_nat [of 5] by simp
  have m: "- maxDouble \<le> 1 / 32" "1 / 8 \<le> maxDouble" using maxDouble_big by linarith+
  note R = roundD_range [OF b r roundR_eighth m]
  have "poleMassLengthD = Double (Fin (roundR (a * (1 / 2))))"
    unfolding poleMassLengthD_def a(1) lengthD_val dtimes_Fin R(1) ..
  then show ?thesis using R(2,3) by blast
qed

lemma stepCartPole_overflow_temp:
  "poleMassLengthD * Double (Fin (2 ^ 600)) * Double (Fin (2 ^ 600)) * Double (Fin 0) = Double NaN"
proof -
  obtain p where p: "poleMassLengthD = Double (Fin p)" "1 / 32 \<le> p" "p \<le> 1 / 8"
    using poleMassLengthD_val by blast
  have lo: "2 ^ 595 \<le> p * 2 ^ 600"
  proof -
    have "(1 / 32) * 2 ^ 600 \<le> p * (2 ^ 600 :: real)" using p(2) by (intro mult_right_mono) simp_all
    then show ?thesis by simp
  qed
  have hi: "p * 2 ^ 600 \<le> 2 ^ 597"
  proof -
    have "p * (2 ^ 600 :: real) \<le> (1 / 8) * 2 ^ 600" using p(3) by (intro mult_right_mono) simp_all
    then show ?thesis by simp
  qed
  have m: "- maxDouble \<le> 2 ^ 595" "2 ^ 597 \<le> maxDouble"
    using pow_le_max [of 597] maxDouble_big by simp_all
  note R = roundD_range [OF lo hi roundR_pow_nat roundR_pow_nat m]
  define r where "r = roundR (p * 2 ^ 600)"
  have e1: "poleMassLengthD * Double (Fin (2 ^ 600)) = Double (Fin r)"
    unfolding p(1) dtimes_Fin R(1) r_def ..
  have "2 ^ 595 * 2 ^ 600 \<le> r * (2 ^ 600 :: real)"
    using R(2) unfolding r_def by (intro mult_right_mono) simp_all
  moreover have "(2::real) ^ 1024 \<le> 2 ^ 595 * 2 ^ 600" by simp
  ultimately have "2 ^ 1024 \<le> r * 2 ^ 600" by linarith
  then have e2: "Double (Fin r) * Double (Fin (2 ^ 600)) = Double PosInf"
    unfolding dtimes_Fin by (simp only: roundD_overflow)
  show ?thesis unfolding e1 e2 by (simp add: times_double_def)
qed

text \<open>
  Claim C10, as amended. For every real pole angle the divisor of the angular
  acceleration in \<^verbatim>\<open>stepCartPole\<close> is at least \<open>0.5 * (4/3 - 1/11)\<close>, hence strictly
  positive, and the total mass is not zero. In the double arithmetic of the code the total
  mass is a finite double not below 1 and, if \<^verbatim>\<open>Math.cos\<close> returns finite values of
  magnitude at most 1, the divisor computed for a finite angle is a finite double not below
  0.62: at a finite angle \<^verbatim>\<open>stepCartPole\<close> never divides by zero. If moreover
  \<^verbatim>\<open>Math.sin\<close> does the same and the four components of the state have magnitude at most
  \<open>2^100\<close>, the four components of the next state are finite. Nothing is claimed of every
  finite state: the source has no guard, and the products of the step can overflow.
\<close>

theorem stepCartPole_divisors_positive:
  "0.5 * (4 / 3 - 1 / 11) \<le> thetaAccDenom th \<and> 0 < thetaAccDenom th \<and> totalMass \<noteq> 0 \<and>
   (\<exists>t. totalMassD = Double (Fin t) \<and> 1 \<le> t) \<and>
   (inUnit (mcos m) \<longrightarrow>
      (\<exists>d. thetaAccDenomD (mcos m (Double (Fin x))) = Double (Fin d) \<and> 62 / 100 \<le> d)) \<and>
   (inUnit (mcos m) \<and> inUnit (msin m) \<and> magBelow 100 (xPosD st) \<and> magBelow 100 (xDotD st) \<and>
    magBelow 100 (thetaD st) \<and> magBelow 100 (thetaDotD st) \<longrightarrow>
      isFiniteD (xPosD (fst (stepCartPoleD m st a))) \<and>
      isFiniteD (xDotD (fst (stepCartPoleD m st a))) \<and>
      isFiniteD (thetaD (fst (stepCartPoleD m st a))) \<and>
      isFiniteD (thetaDotD (fst (stepCartPoleD m st a))))"
proof -
  have 1: "0.5 * (4 / 3 - 1 / 11) \<le> thetaAccDenom th \<and> 0 < thetaAccDenom th \<and> totalMass \<noteq> 0"
    by (rule thetaAccDenom_lower)
  have 2: "\<exists>t. totalMassD = Double (Fin t) \<and> 1 \<le> t" using totalMassD_half by blast
  have 3: "\<exists>d. thetaAccDenomD (mcos m (Double (Fin x))) = Double (Fin d) \<and> 62 / 100 \<le> d"
    if "inUnit (mcos m)" using thetaAccDenomD_inUnit [OF that] .
  have 4: "isFiniteD (xPosD (fst (stepCartPoleD m st a))) \<and>
      isFiniteD (xDotD (fst (stepCartPoleD m st a))) \<and>
      isFiniteD (thetaD (fst (stepCartPoleD m st a))) \<and>
      isFiniteD (thetaDotD (fst (stepCartPoleD m st a)))"
    if "inUnit (mcos m)" "inUnit (msin m)" "magBelow 100 (xPosD st)" "magBelow 100 (xDotD st)"
      "magBelow 100 (thetaD st)" "magBelow 100 (thetaDotD st)"
    using stepCartPoleD_bounded [OF that, of a] by (simp add: magBelow_finite)
  show ?thesis using 1 2 3 4 by blast
qed

theorem stepCartPole_divisors_positive_witness:
  "(\<exists>d. thetaAccDenomD (mcos correctlyRounded (Double (Fin (1 / 2)))) = Double (Fin d) \<and>
        62 / 100 \<le> d) \<and>
   isFiniteD (xPosD (fst (stepCartPoleD correctlyRounded tiltedState ActPos))) \<and>
   isFiniteD (xDotD (fst (stepCartPoleD correctlyRounded tiltedState ActPos))) \<and>
   isFiniteD (thetaD (fst (stepCartPoleD correctlyRounded tiltedState ActPos))) \<and>
   isFiniteD (thetaDotD (fst (stepCartPoleD correctlyRounded tiltedState ActPos)))"
proof -
  have z: "magBelow 100 (lit 0)" by (rule magBelow_lit) simp_all
  have t: "magBelow 100 (lit 0.05)" by (rule magBelow_lit) simp_all
  have s: "magBelow 100 (xPosD tiltedState)" "magBelow 100 (xDotD tiltedState)"
    "magBelow 100 (thetaD tiltedState)" "magBelow 100 (thetaDotD tiltedState)"
    unfolding tiltedState_def using z t by simp_all
  show ?thesis
    using stepCartPole_divisors_positive [where m = correctlyRounded and x = "1 / 2"
        and st = tiltedState and a = ActPos] inUnit_correctlyRounded(1,2) s
    by blast
qed

text \<open>
  Claim C10, counterexample. The state at rest on the origin with angular velocity
  \<open>2^600\<close> has four finite components, each a double. In the step with action \<open>+1\<close> the
  product \<^verbatim>\<open>poleMassLength * thetaDot * thetaDot\<close> overflows to \<open>+Infinity\<close>, its product
  with \<^verbatim>\<open>Math.sin(0) = 0\<close> is \<open>NaN\<close>, and the next cart velocity and angular velocity are
  \<open>NaN\<close>: \<^verbatim>\<open>stepCartPole\<close> does not keep finite inputs finite.
\<close>

theorem stepCartPole_overflow:
  "isFiniteD (xPosD overflowState) \<and> isFiniteD (xDotD overflowState) \<and>
   isFiniteD (thetaD overflowState) \<and> isFiniteD (thetaDotD overflowState) \<and>
   roundD (2 ^ 600) = Fin (2 ^ 600) \<and>
   xDotD (fst (stepCartPoleD correctlyRounded overflowState ActPos)) = Double NaN \<and>
   thetaDotD (fst (stepCartPoleD correctlyRounded overflowState ActPos)) = Double NaN \<and>
   \<not> isFiniteD (xDotD (fst (stepCartPoleD correctlyRounded overflowState ActPos)))"
proof -
  have r: "roundD (2 ^ 600) = Fin (2 ^ 600)"
    using roundD_abs_pow(1) [of "2 ^ 600" 600] by (simp only: roundR_pow_nat) simp
  have f: "thetaDotD overflowState = Double (Fin (2 ^ 600))"
    "thetaD overflowState = Double (Fin 0)"
    by (simp_all only: overflowState_def CartPoleStateD.select_convs)
  have i: "isFiniteD (xPosD overflowState)" "isFiniteD (xDotD overflowState)"
    "isFiniteD (thetaD overflowState)" "isFiniteD (thetaDotD overflowState)"
    by (simp_all only: overflowState_def CartPoleStateD.select_convs isFiniteD_def double.sel
        isFinite.simps)
  have n: "xDotD (fst (stepCartPoleD correctlyRounded overflowState ActPos)) = Double NaN"
    "thetaDotD (fst (stepCartPoleD correctlyRounded overflowState ActPos)) = Double NaN"
    unfolding stepCartPoleD_def Let_def f correctlyRounded_at_zero stepCartPole_overflow_temp
    by (simp_all only: fst_conv CartPoleStateD.select_convs double_NaN)
  have "\<not> isFiniteD (xDotD (fst (stepCartPoleD correctlyRounded overflowState ActPos)))"
    unfolding n(1) by (simp add: isFiniteD_def)
  then show ?thesis using r i n by (simp only: simp_thms)
qed

section \<open>Policy network\<close>

lemma maxD_pair: "maxD [Double (Fin a), Double (Fin b)] = Double (Fin (max a b))"
  by (simp add: maxD_def dmax_def dless_def max_def)

lemma expInUnit_arg:
  assumes f: "expInUnit f" and x: "x \<le> 0"
  shows "\<exists>e. f (Double (roundD x)) = Double (Fin e) \<and> 0 \<le> e \<and> e \<le> 1"
proof (cases "maxDouble < \<bar>roundR x\<bar>")
  case True
  then have "roundD x = NegInf" using x unfolding roundD_def by simp
  then show ?thesis using f unfolding expInUnit_def by simp
next
  case False
  then have r: "roundD x = Fin (roundR x)" unfolding roundD_def by simp
  have le: "roundR x \<le> 0" using roundR_mono [OF x] by simp
  show ?thesis
  proof (cases "roundR x = 0")
    case True
    then show ?thesis using f r unfolding expInUnit_def by simp
  next
    case False
    then have "roundR x < 0" using le by simp
    then show ?thesis using f unfolding expInUnit_def r by blast
  qed
qed

lemma expInUnit_zero: "expInUnit f \<Longrightarrow> f (Double (roundD 0)) = Double (Fin 1)"
  unfolding expInUnit_def by simp

lemma softmax_core:
  assumes e0: "0 \<le> e0" "e0 \<le> 1" and e1: "0 \<le> e1" "e1 \<le> 1" and one: "e0 = 1 \<or> e1 = 1"
  defines "D \<equiv> (Double (Fin 0) + Double (Fin e0)) + Double (Fin e1)"
  shows "\<exists>p0 p1 s. Double (Fin e0) / D = Double (Fin p0) \<and> Double (Fin e1) / D = Double (Fin p1) \<and>
           0 \<le> p0 \<and> p0 \<le> 1 \<and> 0 \<le> p1 \<and> p1 \<le> 1 \<and> \<bar>p0 + p1 - 1\<bar> \<le> 4 / 2 ^ 52 \<and>
           Double (Fin p0) + Double (Fin p1) = Double (Fin s) \<and> \<bar>s - 1\<bar> \<le> 5 / 2 ^ 52"
proof -
  define u :: real where "u = 1 / 2 ^ 52"
  have u: "0 \<le> u" "u \<le> 1 / 1000000000000000" unfolding u_def using u_small by simp_all
  have m: "- maxDouble \<le> 0" "- maxDouble \<le> 1" "1 \<le> maxDouble" "2 \<le> maxDouble"
    using maxDouble_big by linarith+
  define s0 where "s0 = roundR (0 + e0)"
  have a0: "0 \<le> 0 + e0" "0 + e0 \<le> 1" using e0 by simp_all
  note R0 = roundD_range [OF a0 roundR_zero roundR_one m(1,3)]
  have s0: "Double (Fin 0) + Double (Fin e0) = Double (Fin s0)"
    unfolding dplus_Fin s0_def R0(1) ..
  have s0b: "0 \<le> s0" "s0 \<le> 1" using R0(2,3) unfolding s0_def by simp_all
  have s0e: "\<bar>s0 - e0\<bar> \<le> u"
    using roundR_error_small [of "0 + e0"] e0 unfolding s0_def u_def by simp
  have s01: "s0 = 1" if "e0 = 1" using that unfolding s0_def by simp
  have a1: "1 \<le> s0 + e1" "s0 + e1 \<le> 2" using one s01 s0b e1 by auto
  define d where "d = roundR (s0 + e1)"
  note R1 = roundD_range [OF a1 roundR_one roundR_two m(2,4)]
  have D: "D = Double (Fin d)" unfolding D_def s0 by (simp only: dplus_Fin d_def R1(1))
  have db: "1 \<le> d" "d \<le> 2" using R1(2,3) unfolding d_def by simp_all
  have de: "\<bar>d - (s0 + e1)\<bar> \<le> u"
    using roundR_error_small [of "s0 + e1"] a1 unfolding d_def u_def by simp
  have dn: "d \<noteq> 0" "0 < d" using db by simp_all
  have q: "0 \<le> e / d" "e / d \<le> 1" if "0 \<le> e" "e \<le> 1" for e
  proof -
    show "0 \<le> e / d" using that dn by simp
    have "e \<le> d" using that db by linarith
    then show "e / d \<le> 1" using dn by simp
  qed
  define p0 where "p0 = roundR (e0 / d)"
  define p1 where "p1 = roundR (e1 / d)"
  note P0 = roundD_range [OF q [OF e0] roundR_zero roundR_one m(1,3)]
  note P1 = roundD_range [OF q [OF e1] roundR_zero roundR_one m(1,3)]
  have p0: "Double (Fin e0) / D = Double (Fin p0)"
    unfolding D p0_def using ddivide_Fin [OF dn(1), of e0] P0(1) by simp
  have p1: "Double (Fin e1) / D = Double (Fin p1)"
    unfolding D p1_def using ddivide_Fin [OF dn(1), of e1] P1(1) by simp
  have pb: "0 \<le> p0" "p0 \<le> 1" "0 \<le> p1" "p1 \<le> 1"
    using P0(2,3) P1(2,3) unfolding p0_def p1_def by simp_all
  have pe0: "\<bar>p0 - e0 / d\<bar> \<le> u"
    using roundR_error_small [of "e0 / d"] q [OF e0] unfolding p0_def u_def by simp
  have pe1: "\<bar>p1 - e1 / d\<bar> \<le> u"
    using roundR_error_small [of "e1 / d"] q [OF e1] unfolding p1_def u_def by simp
  have "\<bar>(e0 + e1 - d) / d\<bar> = \<bar>e0 + e1 - d\<bar> / d" using dn by simp
  also have "\<dots> \<le> \<bar>e0 + e1 - d\<bar> / 1" using db by (intro divide_left_mono) simp_all
  also have "\<dots> \<le> 2 * u" using s0e de by simp
  finally have r: "\<bar>(e0 + e1 - d) / d\<bar> \<le> 2 * u" .
  have "(e0 + e1 - d) / d = e0 / d + e1 / d - 1" using dn by (simp add: field_simps)
  then have sum: "\<bar>p0 + p1 - 1\<bar> \<le> 4 * u" using r pe0 pe1 by linarith
  define s where "s = roundR (p0 + p1)"
  have a2: "\<bar>p0 + p1\<bar> \<le> 2" using pb by linarith
  have sd: "Double (Fin p0) + Double (Fin p1) = Double (Fin s)"
    unfolding dplus_Fin s_def using roundD_small(1) [OF a2] by simp
  have "\<bar>s - (p0 + p1)\<bar> \<le> u" using roundD_small(2) [OF a2] unfolding s_def u_def .
  then have se: "\<bar>s - 1\<bar> \<le> 5 * u" using sum by linarith
  show ?thesis using p0 p1 pb sum sd se unfolding u_def by auto
qed

lemma softmax_two:
  assumes f: "expInUnit (mexp m)"
  shows "\<exists>p0 p1 s. softmax m [Double (Fin l0), Double (Fin l1)] = [Double (Fin p0), Double (Fin p1)] \<and>
           0 \<le> p0 \<and> p0 \<le> 1 \<and> 0 \<le> p1 \<and> p1 \<le> 1 \<and> \<bar>p0 + p1 - 1\<bar> \<le> 4 / 2 ^ 52 \<and>
           Double (Fin p0) + Double (Fin p1) = Double (Fin s) \<and> \<bar>s - 1\<bar> \<le> 5 / 2 ^ 52"
proof -
  define M where "M = max l0 l1"
  obtain e0 where e0: "mexp m (Double (roundD (l0 - M))) = Double (Fin e0)" "0 \<le> e0" "e0 \<le> 1"
    using expInUnit_arg [OF f, of "l0 - M"] unfolding M_def by auto
  obtain e1 where e1: "mexp m (Double (roundD (l1 - M))) = Double (Fin e1)" "0 \<le> e1" "e1 \<le> 1"
    using expInUnit_arg [OF f, of "l1 - M"] unfolding M_def by auto
  have one: "e0 = 1 \<or> e1 = 1"
  proof (cases "l0 \<le> l1")
    case True
    then have "l1 - M = 0" unfolding M_def by simp
    then show ?thesis using e1(1) expInUnit_zero [OF f] by simp
  next
    case False
    then have "l0 - M = 0" unfolding M_def by simp
    then show ?thesis using e0(1) expInUnit_zero [OF f] by simp
  qed
  have "softmax m [Double (Fin l0), Double (Fin l1)] =
          [Double (Fin e0) / ((Double (Fin 0) + Double (Fin e0)) + Double (Fin e1)),
           Double (Fin e1) / ((Double (Fin 0) + Double (Fin e0)) + Double (Fin e1))]"
    unfolding softmax_def Let_def maxD_pair M_def [symmetric]
    by (simp add: dminus_Fin e0(1) e1(1) zero_double_def)
  then show ?thesis using softmax_core [OF e0(2,3) e1(2,3) one] by simp
qed

lemma upt_4: "[0..<4] = [0, 1, 2, 3]"
  by (simp add: upt_rec)

lemma upt_8: "[0..<8] = [0, 1, 2, 3, 4, 5, 6, 7]"
  by (simp add: upt_rec)

lemma upt_2: "[0..<2] = [0, 1]"
  by (simp add: upt_rec)

lemma dzero_arith [simp]:
  "Double (Fin 0) * Double (Fin x) = Double (Fin 0)"
  "Double (Fin x) * Double (Fin 0) = Double (Fin 0)"
  "Double (Fin 0) + Double (Fin 0) = Double (Fin 0)"
  by (simp_all add: dtimes_Fin dplus_Fin)

lemma dplus_zero_right: "roundD c = Fin c \<Longrightarrow> Double (Fin c) + Double (Fin 0) = Double (Fin c)"
  by (simp add: dplus_Fin)

lemma dplus_zero_left: "roundD c = Fin c \<Longrightarrow> Double (Fin 0) + Double (Fin c) = Double (Fin c)"
  by (simp add: dplus_Fin)

lemma hiddenLayer_bias:
  "hiddenLayer correctlyRounded (biasParams c0 c1)
     [Double (Fin x0), Double (Fin x1), Double (Fin x2), Double (Fin x3)] =
   replicate 8 (Double (Fin 0))"
  unfolding hiddenLayer_def biasParams_def inputSize_def hiddenSize_def upt_4 upt_8
  by (simp add: nthD_def zero_double_def mtanh_zero numeral_eq_Suc)

lemma logitLayer_bias:
  assumes "roundD c0 = Fin c0" "roundD c1 = Fin c1"
  shows "logitLayer (biasParams (Double (Fin c0)) (Double (Fin c1))) (replicate 8 (Double (Fin 0))) =
           [Double (Fin c0), Double (Fin c1)]"
  unfolding logitLayer_def biasParams_def outputSize_def hiddenSize_def upt_2 upt_8
  by (simp add: nthD_def zero_double_def dplus_zero_right assms)

lemma nthD_magBelow: "magList k xs \<Longrightarrow> i < length xs \<Longrightarrow> magBelow k (nthD xs i)"
  unfolding magList_def nthD_def by simp

lemma fold_sum_bounded:
  assumes "magBelow k b" "\<forall>j<n. magBelow k (g j)" "k + n \<le> 1023"
  shows "magBelow (k + n) (fold (\<lambda>j s. s + g j) [0..<n] b)"
  using assms(2,3)
proof (induction n)
  case 0
  then show ?case using assms(1) by simp
next
  case (Suc n)
  have 1: "magBelow (k + n) (fold (\<lambda>j s. s + g j) [0..<n] b)" using Suc by simp
  have 2: "magBelow k (g n)" using Suc.prems(1) by simp
  have "magBelow (k + Suc n) (fold (\<lambda>j s. s + g j) [0..<n] b + g n)"
    by (rule magBelow_plus [OF 1 2]) (use Suc.prems(2) in simp_all)
  then show ?case by simp
qed

lemma hiddenLayer_bounded:
  assumes t: "inUnit (mtanh m)" and b: "boundedInputs params inputVector"
  shows "length (hiddenLayer m params inputVector) = 8"
    and "magList 0 (hiddenLayer m params inputVector)"
proof -
  have len: "length (W1 params) = 32" "length (b1 params) = 8" "length inputVector = 4"
    and mg: "magList 500 (W1 params)" "magList 500 (b1 params)" "magList 500 inputVector"
    using b unfolding boundedInputs_def wfParams_def hiddenSize_def inputSize_def by simp_all
  show "length (hiddenLayer m params inputVector) = 8"
    unfolding hiddenLayer_def hiddenSize_def by simp
  have "magBelow 0 (mtanh m (fold (\<lambda>j sum. sum + nthD (W1 params) (i * 4 + j) * nthD inputVector j)
                      [0..<4] (nthD (b1 params) i)))" if i: "i < 8" for i
  proof -
    have "magBelow 500 (nthD (b1 params) i)"
      using nthD_magBelow [OF mg(2), of i] i len(2) by simp
    then have b0: "magBelow 1000 (nthD (b1 params) i)" by (rule magBelow_mono) simp
    have p: "\<forall>j<4. magBelow 1000 (nthD (W1 params) (i * 4 + j) * nthD inputVector j)"
    proof (intro allI impI)
      fix j :: nat assume j: "j < 4"
      have "i * 4 + j < 32" using i j by simp
      then have w: "magBelow 500 (nthD (W1 params) (i * 4 + j))"
        using nthD_magBelow [OF mg(1)] len(1) by simp
      have x: "magBelow 500 (nthD inputVector j)" using nthD_magBelow [OF mg(3)] len(3) j by simp
      show "magBelow 1000 (nthD (W1 params) (i * 4 + j) * nthD inputVector j)"
        by (rule magBelow_times [OF w x]) simp_all
    qed
    have "magBelow (1000 + 4) (fold (\<lambda>j sum. sum + nthD (W1 params) (i * 4 + j) * nthD inputVector j)
            [0..<4] (nthD (b1 params) i))"
      by (rule fold_sum_bounded [OF b0 p]) simp
    then show ?thesis by (rule magBelow_inUnit [OF t])
  qed
  then show "magList 0 (hiddenLayer m params inputVector)"
    unfolding magList_def hiddenLayer_def hiddenSize_def inputSize_def by auto
qed

lemma logitLayer_bounded:
  assumes b: "boundedInputs params inputVector" and h: "length hid = 8" "magList 0 hid"
  shows "\<exists>l0 l1. logitLayer params hid = [Double (Fin l0), Double (Fin l1)]"
proof -
  have len: "length (W2 params) = 16" "length (b2 params) = 2"
    and mg: "magList 500 (W2 params)" "magList 500 (b2 params)"
    using b unfolding boundedInputs_def wfParams_def hiddenSize_def outputSize_def by simp_all
  have lg: "magBelow (500 + 8) (fold (\<lambda>h sum. sum + nthD (W2 params) (out * 8 + h) * nthD hid h)
              [0..<8] (nthD (b2 params) out))" if out: "out < 2" for out
  proof -
    have b0: "magBelow 500 (nthD (b2 params) out)"
      using nthD_magBelow [OF mg(2), of out] out len(2) by simp
    have p: "\<forall>k<8. magBelow 500 (nthD (W2 params) (out * 8 + k) * nthD hid k)"
    proof (intro allI impI)
      fix k :: nat assume k: "k < 8"
      have "out * 8 + k < 16" using out k by simp
      then have w: "magBelow 500 (nthD (W2 params) (out * 8 + k))"
        using nthD_magBelow [OF mg(1)] len(1) by simp
      have x: "magBelow 0 (nthD hid k)" using nthD_magBelow [OF h(2)] h(1) k by simp
      show "magBelow 500 (nthD (W2 params) (out * 8 + k) * nthD hid k)"
        by (rule magBelow_times [OF w x]) simp_all
    qed
    show ?thesis by (rule fold_sum_bounded [OF b0 p]) simp
  qed
  obtain l0 where l0: "fold (\<lambda>h sum. sum + nthD (W2 params) (0 * 8 + h) * nthD hid h)
              [0..<8] (nthD (b2 params) 0) = Double (Fin l0)"
    using lg [of 0] unfolding magBelow_def by auto
  obtain l1 where l1: "fold (\<lambda>h sum. sum + nthD (W2 params) (1 * 8 + h) * nthD hid h)
              [0..<8] (nthD (b2 params) 1) = Double (Fin l1)"
    using lg [of 1] unfolding magBelow_def by auto
  have "logitLayer params hid = [Double (Fin l0), Double (Fin l1)]"
    unfolding logitLayer_def outputSize_def hiddenSize_def upt_2 using l0 l1 by simp
  then show ?thesis by blast
qed

lemma logits_finite:
  assumes "inUnit (mtanh m)" "boundedInputs params inputVector"
  shows "\<exists>l0 l1. logitLayer params (hiddenLayer m params inputVector) =
                   [Double (Fin l0), Double (Fin l1)]"
  using logitLayer_bounded [OF assms(2) hiddenLayer_bounded [OF assms]] .

lemma roundD_overflow_neg:
  assumes "x \<le> - (2 ^ 1024)"
  shows "roundD x = NegInf"
proof -
  have "roundR x \<le> roundR (- (2 ^ 1024))" using assms by (rule roundR_mono)
  then have "roundR x \<le> - (2 ^ 1024)" by (simp only: roundR_minus roundR_pow_nat)
  then have "maxDouble < \<bar>roundR x\<bar>" using maxDouble_lt by linarith
  moreover have "(0::real) < 2 ^ 1024" by simp
  then have "\<not> 0 < x" using assms by linarith
  ultimately show ?thesis unfolding roundD_def by simp
qed

lemma overflow_products:
  "Double (Fin (2 ^ 1023)) * Double (Fin 2) = Double PosInf"
  "Double (Fin (- (2 ^ 1023))) * Double (Fin 2) = Double NegInf"
proof -
  have "(2::real) ^ 1024 \<le> 2 ^ 1023 * 2" by simp
  then show "Double (Fin (2 ^ 1023)) * Double (Fin 2) = Double PosInf"
    unfolding dtimes_Fin by (simp only: roundD_overflow)
  have "- (2 ^ 1023) * 2 \<le> - ((2::real) ^ 1024)" by simp
  then show "Double (Fin (- (2 ^ 1023))) * Double (Fin 2) = Double NegInf"
    unfolding dtimes_Fin by (simp only: roundD_overflow_neg)
qed

lemma overflow_sum:
  "Double (Fin 0) + Double PosInf + Double NegInf = Double NaN"
  by (simp add: plus_double_def)

lemma hiddenLayer_overflow:
  "\<exists>rest. hiddenLayer correctlyRounded overflowParams overflowObs = Double NaN # rest \<and>
          length rest = 7"
proof -
  have "fold (\<lambda>j sum. sum + nthD (W1 overflowParams) (0 * inputSize + j) * nthD overflowObs j)
          [0..<inputSize] (nthD (b1 overflowParams) 0) = Double NaN"
    unfolding inputSize_def upt_4 overflowParams_def overflowObs_def
    by (simp add: nthD_def zero_double_def overflow_products overflow_sum del: power_numeral)
  then show ?thesis
    unfolding hiddenLayer_def hiddenSize_def upt_8 by (simp add: mtanh_NaN)
qed

lemma logitLayer_NaN:
  assumes "length rest = 7"
  shows "logitLayer overflowParams (Double NaN # rest) = [Double NaN, Double NaN]"
  unfolding logitLayer_def outputSize_def hiddenSize_def upt_2 upt_8 overflowParams_def
  using assms by (simp add: nthD_def)

lemma softmax_NaN:
  "softmax correctlyRounded [Double NaN, Double NaN] = [Double NaN, Double NaN]"
  unfolding softmax_def Let_def by (simp add: maxD_def dmax_def mexp_NaN)




section \<open>One training step on doubles\<close>

lemma computeReturnsD_single:
  "computeReturnsD [step] = [reward step + discountFactorD * 0]"
  by (simp add: computeReturnsD_def Let_def)

lemma lit_small:
  assumes "0 \<le> x" "x \<le> 1"
  shows "\<exists>r. lit x = Double (Fin r) \<and> 0 \<le> r \<and> r \<le> 1 \<and> roundD r = Fin r"
proof -
  have m: "- maxDouble \<le> 0" "1 \<le> maxDouble" using maxDouble_big by linarith+
  note R = roundD_range [OF assms roundR_zero roundR_one m]
  show ?thesis unfolding lit_def using R roundD_idem [OF R(1)] by blast
qed

lemma unitReturn:
  assumes "reward step = 1"
  shows "computeReturnsD [step] = [Double (Fin 1)]"
proof -
  obtain g where g: "discountFactorD = Double (Fin g)"
    using lit_small [of "0.99"] unfolding discountFactorD_def by auto
  show ?thesis
    unfolding computeReturnsD_single assms g
    by (simp add: zero_double_def one_double_def dplus_Fin)
qed

lemma updateScaleD_one:
  "\<exists>s. updateScaleD 1 = Double (Fin s) \<and> 1 / 64 \<le> s \<and> s \<le> 1 / 32"
proof -
  have m: "- maxDouble \<le> 1 / 64" "1 / 32 \<le> maxDouble" using maxDouble_big by linarith+
  have r: "roundR (1 / 64) = 1 / 64" "roundR (1 / 32) = 1 / 32"
    using roundR_inv_pow_nat [of 6] roundR_inv_pow_nat [of 5] by simp_all
  have b0: "1 / 64 \<le> (0.02 :: real)" "(0.02 :: real) \<le> 1 / 32" by simp_all
  note L = roundD_range [OF b0 r m]
  define l where "l = roundR 0.02"
  have one: "lit (real (max 1 1)) = Double (Fin 1)" by (simp add: lit_def)
  have b: "1 / 64 \<le> l / 1" "l / 1 \<le> 1 / 32" using L(2,3) unfolding l_def by simp_all
  note R = roundD_range [OF b r m]
  have "updateScaleD 1 = Double (Fin (roundR (l / 1)))"
    unfolding updateScaleD_def learningRateD_def lit_def L(1) one l_def [symmetric]
    using ddivide_Fin [of 1 l] R(1) by simp
  then show ?thesis using R(2,3) by blast
qed

lemma singleStep_gradients:
  fixes params :: "'a::{zero,one,plus,minus,times} NetworkParams" and step :: "'a PolicyStep"
    and adv :: 'a
  defines "d \<equiv> outputError step adv"
  defines "e \<equiv> hiddenError params step [d 0, d 1]"
  defines "g \<equiv> accumulateStep params step adv zeroGradients"
  shows "length (gradb2 g) = 2" and "length (gradW2 g) = 16"
    and "length (gradb1 g) = 8" and "length (gradW1 g) = 32"
    and "out < 2 \<Longrightarrow> gradb2 g ! out = 0 + d out"
    and "out < 2 \<Longrightarrow> h < 8 \<Longrightarrow> gradW2 g ! (out * 8 + h) = 0 + d out * hidden step ! h"
    and "h < 8 \<Longrightarrow> gradb1 g ! h = 0 + e h"
    and "h < 8 \<Longrightarrow> i < 4 \<Longrightarrow> gradW1 g ! (h * 4 + i) = 0 + e h * state step ! i"
proof -
  let ?g1 = "fst (accumulateOutput step adv zeroGradients)"
  let ?row0 = "fold (\<lambda>h ys. addAt ys h (d 0 * hidden step ! h))
                 [0..<hiddenSize] (replicate 16 (0::'a))"
  let ?row1 = "fold (\<lambda>h ys. addAt ys (hiddenSize + h) (d 1 * hidden step ! h))
                 [0..<hiddenSize] ?row0"
  have g: "g = accumulateHidden params step [d 0, d 1] ?g1"
    by (simp add: g_def accumulateStep_alt d_def)
  have g1_b1: "gradb1 ?g1 = replicate 8 0" and g1_W1: "gradW1 ?g1 = replicate 32 0"
    and g1_b2: "gradb2 ?g1 = [0 + d 0, 0 + d 1]"
    by (simp_all add: accumulateOutput_fst zeroGradients_def hiddenSize_def inputSize_def
        outputSize_def addAt_def d_def numeral_2_eq_2)
  have g1_W2: "gradW2 ?g1 = ?row1"
    unfolding accumulateOutput_fst d_def
    by (simp add: zeroGradients_def hiddenSize_def outputSize_def)
  have pos: "0 < inputSize" by (simp add: inputSize_def)
  note hf = hiddenFold [OF pos, of e "state step" hiddenSize ?g1]
  have hl: "length (gradb1 g) = 8" "length (gradW1 g) = 32"
    and hW2: "gradW2 g = ?row1" and hb2: "gradb2 g = [0 + d 0, 0 + d 1]"
    using hf unfolding g accumulateHidden_alt e_def g1_b1 g1_W1 g1_b2 g1_W2 by simp_all
  have hb1: "gradb1 g ! h = 0 + e h" if "h < 8" for h
    using hf that unfolding g accumulateHidden_alt e_def g1_b1 g1_W1
    by (simp add: hiddenSize_def)
  have hW1: "gradW1 g ! k = 0 + e (k div 4) * state step ! (k mod 4)" if "k < 32" for k
    using hf that unfolding g accumulateHidden_alt e_def g1_b1 g1_W1
    by (simp add: hiddenSize_def inputSize_def)
  have l0: "length ?row0 = 16" by (simp add: rowFold0_length)
  have r0: "?row0 ! k = (if k < 8 then 0 + d 0 * hidden step ! k else 0)" if "k < 16" for k
    using rowFold0_nth [of k "replicate 16 (0::'a)"
        "\<lambda>h. d 0 * hidden step ! h" hiddenSize] that
    by (simp add: hiddenSize_def)
  have r1: "?row1 ! k = (if 8 \<le> k then ?row0 ! k + d 1 * hidden step ! (k - 8) else ?row0 ! k)"
    if "k < 16" for k
    using rowFold_nth [of k ?row0 hiddenSize "\<lambda>h. d 1 * hidden step ! h" hiddenSize]
      that l0
    by (simp add: hiddenSize_def)
  show "length (gradb2 g) = 2" using hb2 by simp
  show "length (gradW2 g) = 16" unfolding hW2 by (simp add: rowFold_length rowFold0_length)
  show "length (gradb1 g) = 8" by (rule hl)
  show "length (gradW1 g) = 32" by (rule hl)
  show "gradb2 g ! out = 0 + d out" if "out < 2" for out
    using that unfolding hb2 by (auto simp: less_Suc_eq numeral_2_eq_2)
  show "gradW2 g ! (out * 8 + h) = 0 + d out * hidden step ! h" if "out < 2" "h < 8" for out h
  proof -
    from that(1) consider "out = 0" | "out = 1" by linarith
    then show ?thesis
    proof cases
      case 1
      then show ?thesis unfolding hW2 using that(2) r1 [of h] r0 [of h] by simp
    next
      case 2
      then show ?thesis unfolding hW2 using that(2) r1 [of "8 + h"] r0 [of "8 + h"] by simp
    qed
  qed
  show "gradb1 g ! h = 0 + e h" if "h < 8" for h by (rule hb1 [OF that])
  show "gradW1 g ! (h * 4 + i) = 0 + e h * state step ! i" if "h < 8" "i < 4" for h i
  proof -
    have "h * 4 + i < 32" using that by simp
    moreover have "(h * 4 + i) div 4 = h" "(h * 4 + i) mod 4 = i" using that by simp_all
    ultimately show ?thesis using hW1 [of "h * 4 + i"] by simp
  qed
qed

lemma episodeGradientsD_single:
  "episodeGradientsD params [step] =
     accumulateStep params step (reward step + discountFactorD * 0) zeroGradients"
  by (simp add: episodeGradientsD_def computeReturnsD_single accumulateGradients_single)

lemma trainOnEpisodeD_single:
  "trainOnEpisodeD params [step] =
     \<lparr> W1 = mapIndexed (\<lambda>weight index. weight + updateScaleD 1 *
                 gradW1 (episodeGradientsD params [step]) ! index) (W1 params),
       b1 = mapIndexed (\<lambda>bias index. bias + updateScaleD 1 *
                 gradb1 (episodeGradientsD params [step]) ! index) (b1 params),
       W2 = mapIndexed (\<lambda>weight index. weight + updateScaleD 1 *
                 gradW2 (episodeGradientsD params [step]) ! index) (W2 params),
       b2 = mapIndexed (\<lambda>bias index. bias + updateScaleD 1 *
                 gradb2 (episodeGradientsD params [step]) ! index) (b2 params) \<rparr>"
  by (simp add: trainOnEpisodeD_def Let_def)

lemma roundR_at_max:
  assumes "maxDouble \<le> x" "x \<le> maxDouble + 1"
  shows "roundR x = maxDouble"
proof -
  have p: "(2::real) powr (of_int 1023) = 2 ^ 1023" "(2::real) powr (of_int 1023 + 1) = 2 ^ 1024"
    using powr_realpow [of "2::real" 1023] powr_realpow [of "2::real" 1024] by simp_all
  have lo: "2 ^ 1023 \<le> x" using assms(1) maxDouble_ge by linarith
  have hi: "x < 2 ^ 1024" using assms(2) unfolding maxDouble_def by simp
  have "expoD x = 1023"
    using lo hi by (intro expoD_eq) (simp_all only: p, simp_all)
  then have u: "ulpD x = 2 ^ 971"
    unfolding ulpD_def using powr_realpow [of "2::real" 971] by simp
  have a: "of_int (2 ^ 53 - 1) \<le> x / 2 ^ 971"
  proof -
    have "maxDouble = of_int (2 ^ 53 - 1) * 2 ^ 971" unfolding maxDouble_def by simp
    then have "of_int (2 ^ 53 - 1) * 2 ^ 971 \<le> x" using assms(1) by simp
    then show ?thesis by (simp add: pos_le_divide_eq)
  qed
  have b: "x / 2 ^ 971 < of_int (2 ^ 53 - 1) + 1 / 2"
  proof -
    have "maxDouble + 1 < (of_int (2 ^ 53 - 1) + 1 / 2) * 2 ^ 971" unfolding maxDouble_def by simp
    then have "x < (of_int (2 ^ 53 - 1) + 1 / 2) * 2 ^ 971" using assms(2) by linarith
    then show ?thesis by (simp add: pos_divide_less_eq)
  qed
  have "rne (x / ulpD x) = 2 ^ 53 - 1" unfolding u using a b by (rule rne_near)
  then have "roundR x = 2 ^ 971 * of_int (2 ^ 53 - 1)" unfolding roundR_def u by simp
  then show ?thesis unfolding maxDouble_def by simp
qed

lemma roundR_maxDouble: "roundR maxDouble = maxDouble"
  by (rule roundR_at_max) simp_all

lemma roundD_Fin_iff: "roundD c = Fin c \<longleftrightarrow> roundR c = c \<and> \<bar>c\<bar> \<le> maxDouble"
  unfolding roundD_def by (auto split: if_splits elim: infOfSign.elims)

lemma bias_update_up:
  assumes c: "roundD c = Fin c" and t: "0 \<le> t" "t \<le> 1"
  shows "\<exists>c'. Double (Fin c) + Double (Fin t) = Double (Fin c') \<and> c \<le> c' \<and> roundD c' = Fin c'"
proof -
  have rc: "roundR c = c" "\<bar>c\<bar> \<le> maxDouble" using c unfolding roundD_Fin_iff by simp_all
  have "c + t \<le> maxDouble + 1" using rc(2) t by linarith
  then have "roundR (c + t) \<le> roundR (maxDouble + 1)" by (rule roundR_mono)
  then have hi: "roundR (c + t) \<le> maxDouble" using roundR_at_max [of "maxDouble + 1"] by simp
  have "roundR c \<le> roundR (c + t)" using t by (intro roundR_mono) simp
  then have lo: "c \<le> roundR (c + t)" using rc(1) by simp
  have "\<bar>roundR (c + t)\<bar> \<le> maxDouble" using lo hi rc(2) by linarith
  then have r: "roundD (c + t) = Fin (roundR (c + t))" by (rule roundD_finite)
  show ?thesis unfolding dplus_Fin using r lo roundD_idem [OF r] by blast
qed

lemma bias_update_down:
  assumes c: "roundD c = Fin c" and t: "- 1 \<le> t" "t \<le> 0"
  shows "\<exists>c'. Double (Fin c) + Double (Fin t) = Double (Fin c') \<and> c' \<le> c \<and> roundD c' = Fin c'"
proof -
  have rc: "roundR c = c" "\<bar>c\<bar> \<le> maxDouble" using c unfolding roundD_Fin_iff by simp_all
  have "- (maxDouble + 1) \<le> c + t" using rc(2) t by linarith
  then have "roundR (- (maxDouble + 1)) \<le> roundR (c + t)" by (rule roundR_mono)
  moreover have "roundR (- (maxDouble + 1)) = - maxDouble"
    unfolding roundR_minus using roundR_at_max [of "maxDouble + 1"] by simp
  ultimately have lo: "- maxDouble \<le> roundR (c + t)" by simp
  have "roundR (c + t) \<le> roundR c" using t by (intro roundR_mono) simp
  then have hi: "roundR (c + t) \<le> c" using rc(1) by simp
  have "\<bar>roundR (c + t)\<bar> \<le> maxDouble" using lo hi rc(2) by linarith
  then have r: "roundD (c + t) = Fin (roundR (c + t))" by (rule roundD_finite)
  show ?thesis unfolding dplus_Fin using r hi roundD_idem [OF r] by blast
qed

lemma roundD_unit:
  assumes "0 \<le> x" "x \<le> 1"
  shows "roundD x = Fin (roundR x)" "0 \<le> roundR x" "roundR x \<le> 1"
proof -
  have m: "- maxDouble \<le> 0" "1 \<le> maxDouble" using maxDouble_big by linarith+
  show "roundD x = Fin (roundR x)" "0 \<le> roundR x" "roundR x \<le> 1"
    using roundD_range [OF assms roundR_zero roundR_one m] by simp_all
qed

lemma roundD_negunit:
  assumes "- 1 \<le> x" "x \<le> 0"
  shows "roundD x = Fin (roundR x)" "- 1 \<le> roundR x" "roundR x \<le> 0"
proof -
  have m: "- maxDouble \<le> - 1" "0 \<le> maxDouble" using maxDouble_big by linarith+
  have r: "roundR (- 1) = - 1" by (simp add: roundR_minus)
  show "roundD x = Fin (roundR x)" "- 1 \<le> roundR x" "roundR x \<le> 0"
    using roundD_range [OF assms r roundR_zero m] by simp_all
qed

lemma grad_chosen:
  assumes p: "0 \<le> p" "p \<le> 1"
  shows "\<exists>g. Double (Fin 0) + (Double (Fin 1) - Double (Fin p)) * Double (Fin 1) = Double (Fin g) \<and>
              0 \<le> g \<and> g \<le> 1"
proof -
  define r1 where "r1 = roundR (1 - p)"
  define r2 where "r2 = roundR (r1 * 1)"
  define r3 where "r3 = roundR (0 + r2)"
  have a1: "0 \<le> 1 - p" "1 - p \<le> 1" using p by simp_all
  note R1 = roundD_unit [OF a1, folded r1_def]
  have a2: "0 \<le> r1 * 1" "r1 * 1 \<le> 1" using R1(2,3) by simp_all
  note R2 = roundD_unit [OF a2, folded r2_def]
  have a3: "0 \<le> 0 + r2" "0 + r2 \<le> 1" using R2(2,3) by simp_all
  note R3 = roundD_unit [OF a3, folded r3_def]
  have "Double (Fin 0) + (Double (Fin 1) - Double (Fin p)) * Double (Fin 1) = Double (Fin r3)"
    by (simp only: dminus_Fin R1(1) dtimes_Fin R2(1) dplus_Fin R3(1))
  then show ?thesis using R3(2,3) by blast
qed

lemma grad_other:
  assumes p: "0 \<le> p" "p \<le> 1"
  shows "\<exists>g. Double (Fin 0) + (Double (Fin 0) - Double (Fin p)) * Double (Fin 1) = Double (Fin g) \<and>
              - 1 \<le> g \<and> g \<le> 0"
proof -
  define r1 where "r1 = roundR (0 - p)"
  define r2 where "r2 = roundR (r1 * 1)"
  define r3 where "r3 = roundR (0 + r2)"
  have a1: "- 1 \<le> 0 - p" "0 - p \<le> 0" using p by simp_all
  note R1 = roundD_negunit [OF a1, folded r1_def]
  have a2: "- 1 \<le> r1 * 1" "r1 * 1 \<le> 0" using R1(2,3) by simp_all
  note R2 = roundD_negunit [OF a2, folded r2_def]
  have a3: "- 1 \<le> 0 + r2" "0 + r2 \<le> 0" using R2(2,3) by simp_all
  note R3 = roundD_negunit [OF a3, folded r3_def]
  have "Double (Fin 0) + (Double (Fin 0) - Double (Fin p)) * Double (Fin 1) = Double (Fin r3)"
    by (simp only: dminus_Fin R1(1) dtimes_Fin R2(1) dplus_Fin R3(1))
  then show ?thesis using R3(2,3) by blast
qed

lemma scaled_up:
  assumes s: "0 \<le> s" "s \<le> 1" and g: "0 \<le> g" "g \<le> 1"
  shows "\<exists>t. Double (Fin s) * Double (Fin g) = Double (Fin t) \<and> 0 \<le> t \<and> t \<le> 1"
proof -
  have a: "0 \<le> s * g" "s * g \<le> 1" using s g by (simp_all add: mult_le_one)
  show ?thesis unfolding dtimes_Fin using roundD_unit [OF a] by blast
qed

lemma scaled_down:
  assumes s: "0 \<le> s" "s \<le> 1" and g: "- 1 \<le> g" "g \<le> 0"
  shows "\<exists>t. Double (Fin s) * Double (Fin g) = Double (Fin t) \<and> - 1 \<le> t \<and> t \<le> 0"
proof -
  have "s * (- g) \<le> 1" using s g by (intro mult_le_one) simp_all
  then have a: "- 1 \<le> s * g" "s * g \<le> 0" using s g by (simp_all add: mult_nonneg_nonpos)
  show ?thesis unfolding dtimes_Fin using roundD_negunit [OF a] by blast
qed

lemma mapIndexed_pair: "mapIndexed f [x, y] = [f x 0, f y 1]"
  by (simp add: mapIndexed_def upt_rec)

lemma recordStep_fields:
  "state (recordStep m params obs a) = obs"
  "hidden (recordStep m params obs a) = fst (forwardNetwork m params obs)"
  "probs (recordStep m params obs a) = snd (forwardNetwork m params obs)"
  "actionIndex (recordStep m params obs a) = a"
  "reward (recordStep m params obs a) = 1"
  by (simp_all add: recordStep_def split_beta)

lemma forwardNetwork_fields:
  "fst (forwardNetwork m params obs) = hiddenLayer m params obs"
  "snd (forwardNetwork m params obs) = softmax m (logitLayer params (hiddenLayer m params obs))"
  by (simp_all add: forwardNetwork_def Let_def)

lemma episodeGradientsD_unit:
  assumes "reward step = 1"
  shows "episodeGradientsD params [step] = accumulateStep params step (Double (Fin 1)) zeroGradients"
  unfolding episodeGradientsD_def unitReturn [OF assms] accumulateGradients_single by simp

lemma list_two: "length xs = 2 \<Longrightarrow> xs = [xs ! 0, xs ! 1]"
  by (cases xs; cases "tl xs") auto



lemma roundD_128: "roundD 128 = Fin 128"
  using roundD_abs_pow(1) [of "2 ^ 7" 7] roundR_pow_nat [of 7] by simp

lemma mexp_tiny:
  assumes "x \<le> - 128"
  shows "\<exists>e. mexp correctlyRounded (Double (Fin x)) = Double (Fin e) \<and> 0 \<le> e \<and> e \<le> 1 / 2 ^ 128"
proof -
  have b: "0 \<le> exp x" "exp x \<le> 1 / 2 ^ 128" using exp_le_pow2 [of x 128] assms by simp_all
  have "(1::real) / 2 ^ 128 \<le> 1" by simp
  then have m: "- maxDouble \<le> 0" "1 / 2 ^ 128 \<le> maxDouble"
    using maxDouble_big by linarith+
  have r: "roundR (1 / 2 ^ 128) = 1 / 2 ^ 128" by (rule roundR_inv_pow_nat) simp
  note R = roundD_range [OF b roundR_zero r m]
  show ?thesis using R by (simp add: correctlyRounded_def roundedFn_def)
qed

lemma softmax_saturated:
  assumes "- 1 \<le> l1" "l1 \<le> 0"
  shows "\<exists>e. softmax correctlyRounded [Double (Fin 128), Double (Fin l1)] =
               [Double (Fin 1), Double (Fin e)] \<and> 0 \<le> e \<and> e \<le> 1"
proof -
  have mx: "max 128 l1 = 128" using assms by simp
  have b: "- 256 \<le> l1 - 128" "l1 - 128 \<le> - 128" using assms by simp_all
  have r: "roundR (- 256) = - 256" "roundR (- 128) = - 128"
    using roundR_pow_nat [of 8] roundR_pow_nat [of 7] by (simp_all add: roundR_minus)
  have m: "- maxDouble \<le> - 256" "- 128 \<le> maxDouble" using pow_le_max [of 8] by simp_all
  note X = roundD_range [OF b r m]
  define x where "x = roundR (l1 - 128)"
  obtain e where e: "mexp correctlyRounded (Double (Fin x)) = Double (Fin e)" "0 \<le> e"
    "e \<le> 1 / 2 ^ 128"
    using mexp_tiny [of x] X(3) unfolding x_def by blast
  have e54: "e \<le> 1 / 2 ^ 54" using e(3) by (rule order_trans) simp
  have e1: "e \<le> 1" using e(3) by (rule order_trans) simp
  have d: "Double (Fin 0) + Double (Fin 1) + Double (Fin e) = Double (Fin 1)"
    using roundR_one_plus [OF e(2) e54] by (simp add: dplus_Fin roundD_finite maxDouble_big [THEN order_trans [rotated]])
  have m2: "- maxDouble \<le> 0" "1 \<le> maxDouble" using maxDouble_big by linarith+
  have be: "0 \<le> e / 1" "e / 1 \<le> 1" using e(2) e1 by simp_all
  note E = roundD_range [OF be roundR_zero roundR_one m2]
  have "softmax correctlyRounded [Double (Fin 128), Double (Fin l1)] =
          [Double (Fin 1) / Double (Fin 1), Double (Fin e) / Double (Fin 1)]"
    unfolding softmax_def Let_def maxD_pair mx
    by (simp add: dminus_Fin mexp_zero X(1) x_def [symmetric] e(1) zero_double_def d)
  also have "\<dots> = [Double (Fin 1), Double (Fin (roundR (e / 1)))]"
    using ddivide_Fin [of 1 1] ddivide_Fin [of 1 e] E(1) by simp
  finally show ?thesis using E(2,3) by blast
qed

lemma forward_saturated:
  assumes "roundD c1 = Fin c1" "- 1 \<le> c1" "c1 \<le> 0"
  shows "\<exists>e. forwardNetwork correctlyRounded (biasParams (Double (Fin 128)) (Double (Fin c1))) restObs =
               (replicate 8 (Double (Fin 0)), [Double (Fin 1), Double (Fin e)]) \<and> 0 \<le> e \<and> e \<le> 1"
proof -
  obtain e where e: "softmax correctlyRounded [Double (Fin 128), Double (Fin c1)] =
      [Double (Fin 1), Double (Fin e)]" "0 \<le> e" "e \<le> 1"
    using softmax_saturated [OF assms(2,3)] by blast
  have "forwardNetwork correctlyRounded (biasParams (Double (Fin 128)) (Double (Fin c1))) restObs =
          (replicate 8 (Double (Fin 0)), [Double (Fin 1), Double (Fin e)])"
    unfolding forwardNetwork_def Let_def restObs_def hiddenLayer_bias
      logitLayer_bias [OF roundD_128 assms(1)] e(1) ..
  then show ?thesis using e(2,3) by blast
qed

lemma hiddenError_zero:
  assumes "h < 8" "hidden step ! h = Double (Fin 0)"
  shows "hiddenError (biasParams c0 c1) step [Double (Fin d0), Double (Fin d1)] h = Double (Fin 0)"
  unfolding hiddenError_def upt_outputSize biasParams_def hiddenSize_def
  using assms by (simp add: zero_double_def one_double_def dminus_Fin)

lemma train_saturated:
  assumes pr: "probs step = [Double (Fin 1), Double (Fin e)]" and e: "0 \<le> e" "e \<le> 1"
    and hid: "hidden step = replicate 8 (Double (Fin 0))"
    and st: "state step = restObs"
    and ai: "actionIndex step = 0" and rw: "reward step = 1"
  shows "\<exists>c1. trainOnEpisodeD saturatedParams [step] = biasParams (Double (Fin 128)) (Double (Fin c1)) \<and>
              roundD c1 = Fin c1 \<and> - 1 \<le> c1 \<and> c1 \<le> 0"
proof -
  obtain s where s: "updateScaleD 1 = Double (Fin s)" "1 / 64 \<le> s" "s \<le> 1 / 32"
    using updateScaleD_one by blast
  have s': "0 \<le> s" "s \<le> 1" using s(2,3) by linarith+
  define G where "G = episodeGradientsD saturatedParams [step]"
  have G: "G = accumulateStep saturatedParams step (Double (Fin 1)) zeroGradients"
    unfolding G_def by (rule episodeGradientsD_unit [OF rw])
  note sg = singleStep_gradients [where params = saturatedParams and step = step
      and adv = "Double (Fin 1)", folded G]
  have d0: "outputError step (Double (Fin 1)) 0 = Double (Fin 0)"
    unfolding outputError_def ai pr by (simp add: one_double_def dminus_Fin)
  obtain g1 where g1: "Double (Fin 0) + (Double (Fin 0) - Double (Fin e)) * Double (Fin 1) =
      Double (Fin g1)" "- 1 \<le> g1" "g1 \<le> 0"
    using grad_other [OF e] by blast
  obtain d1 where d1: "outputError step (Double (Fin 1)) 1 = Double (Fin d1)"
  proof -
    have a1: "- 1 \<le> 0 - e" "0 - e \<le> 0" using e by simp_all
    note R1 = roundD_negunit [OF a1]
    have a2: "- 1 \<le> roundR (0 - e) * 1" "roundR (0 - e) * 1 \<le> 0" using R1(2,3) by simp_all
    note R2 = roundD_negunit [OF a2]
    have "outputError step (Double (Fin 1)) 1 = Double (Fin (roundR (roundR (0 - e) * 1)))"
      unfolding outputError_def ai pr
      using R1(1) R2(1) by (simp add: zero_double_def dminus_Fin dtimes_Fin)
    then show ?thesis using that by blast
  qed
  have gb2_0: "gradb2 G ! 0 = Double (Fin 0)"
    using sg(5) [of 0] unfolding d0 by (simp add: zero_double_def)
  have gb2_1: "gradb2 G ! 1 = Double (Fin g1)"
  proof -
    have "gradb2 G ! 1 = 0 + outputError step (Double (Fin 1)) 1" by (rule sg(5)) simp
    then show ?thesis unfolding outputError_def ai pr using g1(1) by (simp add: zero_double_def)
  qed
  have he: "hiddenError saturatedParams step
              [outputError step (Double (Fin 1)) 0, outputError step (Double (Fin 1)) 1] h =
            Double (Fin 0)" if "h < 8" for h
    unfolding d0 d1 saturatedParams_def using that hid by (intro hiddenError_zero) simp_all
  have gW2: "gradW2 G ! k = Double (Fin 0)" if "k < 16" for k
  proof -
    define out where "out = k div 8"
    define h where "h = k mod 8"
    have k: "k = out * 8 + h" "out < 2" "h < 8" using that unfolding out_def h_def by auto
    have "gradW2 G ! (out * 8 + h) = 0 + outputError step (Double (Fin 1)) out * hidden step ! h"
      using k(2,3) by (rule sg(6))
    moreover from k(2) consider "out = 0" | "out = 1" by linarith
    then have "outputError step (Double (Fin 1)) out * hidden step ! h = Double (Fin 0)"
      using d0 d1 hid k(3) by cases simp_all
    ultimately show ?thesis unfolding k(1) by (simp add: zero_double_def)
  qed
  have gb1: "gradb1 G ! h = Double (Fin 0)" if "h < 8" for h
    using sg(7) [OF that] he [OF that] by (simp add: zero_double_def)
  have gW1: "gradW1 G ! k = Double (Fin 0)" if "k < 32" for k
  proof -
    define h where "h = k div 4"
    define i where "i = k mod 4"
    have k: "k = h * 4 + i" "h < 8" "i < 4" using that unfolding h_def i_def by auto
    have "\<exists>x. state step ! i = Double (Fin x)"
      using k(3) unfolding st restObs_def by (auto simp: less_Suc_eq numeral_eq_Suc)
    then obtain x where x: "state step ! i = Double (Fin x)" ..
    have "gradW1 G ! (h * 4 + i) =
            0 + hiddenError saturatedParams step
                  [outputError step (Double (Fin 1)) 0, outputError step (Double (Fin 1)) 1] h *
                state step ! i"
      using k(2,3) by (rule sg(8))
    then show ?thesis unfolding k(1) he [OF k(2)] x by (simp add: zero_double_def)
  qed
  have z: "Double (Fin 0) + Double (Fin s) * Double (Fin 0) = Double (Fin 0)" by simp
  have W1: "mapIndexed (\<lambda>weight index. weight + Double (Fin s) * gradW1 G ! index)
              (replicate 32 (Double (Fin 0))) = replicate 32 (Double (Fin 0))"
    by (rule nth_equalityI) (simp_all add: mapIndexed_length mapIndexed_nth gW1)
  have b1: "mapIndexed (\<lambda>bias index. bias + Double (Fin s) * gradb1 G ! index)
              (replicate 8 (Double (Fin 0))) = replicate 8 (Double (Fin 0))"
    by (rule nth_equalityI) (simp_all add: mapIndexed_length mapIndexed_nth gb1)
  have W2: "mapIndexed (\<lambda>weight index. weight + Double (Fin s) * gradW2 G ! index)
              (replicate 16 (Double (Fin 0))) = replicate 16 (Double (Fin 0))"
    by (rule nth_equalityI) (simp_all add: mapIndexed_length mapIndexed_nth gW2)
  obtain t1 where t1: "Double (Fin s) * Double (Fin g1) = Double (Fin t1)" "- 1 \<le> t1" "t1 \<le> 0"
    using scaled_down [OF s' g1(2,3)] by blast
  have r0: "roundD 0 = Fin 0" by simp
  obtain c1 where c1: "Double (Fin 0) + Double (Fin t1) = Double (Fin c1)" "c1 \<le> 0"
    "roundD c1 = Fin c1"
    using bias_update_down [OF r0 t1(2,3)] by blast
  have c1lo: "- 1 \<le> c1"
  proof -
    have "Double (Fin c1) = Double (roundD (0 + t1))" using c1(1) unfolding dplus_Fin by simp
    moreover have "0 + t1 = t1" by simp
    ultimately have "Fin c1 = roundD t1" by simp
    then show ?thesis using roundD_negunit [OF t1(2,3)] by simp
  qed
  have b2: "mapIndexed (\<lambda>bias index. bias + Double (Fin s) * gradb2 G ! index)
              [Double (Fin 128), Double (Fin 0)] = [Double (Fin 128), Double (Fin c1)]"
    unfolding mapIndexed_pair gb2_0 gb2_1 t1(1) c1(1)
    using roundD_128 by (simp add: dplus_Fin)
  have "trainOnEpisodeD saturatedParams [step] = biasParams (Double (Fin 128)) (Double (Fin c1))"
    unfolding trainOnEpisodeD_single G_def [symmetric] s(1)
    unfolding saturatedParams_def biasParams_def
    by (simp add: zero_double_def W1 b1 W2 b2)
  then show ?thesis using c1(2,3) c1lo by blast
qed


end
